theory Spec2Isabelle
  imports Main "HOL-Library.Sublist" "HOL-Library.AList" "HOL-Library.Multiset"
begin

section \<open>The release pipeline of scripts/build-and-publish.py\<close>

text \<open>
  The script checks that the library's source files exist, scans some of them for
  textual evidence of security measures, copies the JavaScript sources into a
  distribution directory and then publishes. This theory embeds the source inventory
  (\<open>validate_source_files\<close>), the injection and token checks
  (\<open>test_sql_injection_protection\<close>, \<open>test_jwt_security\<close>), the bundle assembler
  (\<open>create_cdn_bundle\<close>) and the step loop of \<open>main\<close>.

  Conventions of the embedding.
  \<^item> A Python \<open>str\<close> is a \<open>string\<close>; the content of a file on disk is a list of bytes,
    also written as a \<open>string\<close>.
  \<^item> The file system is an association list from POSIX paths, relative to the working
    directory, to nodes. The order of the list is the order in which the operating
    system enumerates the entries.
  \<^item> A function that prints returns the printed lines; a function that may raise
    returns \<open>exn + 'a\<close>, the lines printed before the exception being kept.
  \<^item> The text codec of the platform (the locale's encoding) is a parameter, and so is
    the clock.
\<close>

subsection \<open>Strings\<close>

type_synonym path = string
type_synonym str = string
type_synonym bytes = string

text \<open>Python's \<open>sub in s\<close> on strings: \<open>sub\<close> occurs in \<open>s\<close> as a contiguous block.\<close>

fun str_in :: "'a list \<Rightarrow> 'a list \<Rightarrow> bool" where
  "str_in sub [] = (sub = [])"
| "str_in sub (c # cs) = (prefix sub (c # cs) \<or> str_in sub cs)"

subsection \<open>Terminal output\<close>

text \<open>
  The members of \<open>class Colors\<close>. A printed line is the colour prefix given to \<open>log\<close>
  and the message; the message is kept as the fragments of its f-string: literal text,
  a code point outside ASCII, an interpolated integer (\<open>N\<close> for \<open>{n}\<close>, \<open>NSep\<close> for
  \<open>{n:,}\<close>, \<open>KB\<close> for \<open>{n/1024:.2f}\<close>), an interpolated string or the text
  \<open>str(e)\<close> of an exception. The exceptions are those the modelled file operations
  raise, and \<open>OtherException\<close> for any other instance of \<open>Exception\<close>.
\<close>

datatype colour = HEADER | OKBLUE | OKCYAN | OKGREEN | WARNING | FAIL | ENDC | BOLD | UNDERLINE

datatype exn =
    FileNotFoundError path
  | IsADirectoryError path
  | NotADirectoryError path
  | FileExistsError path
  | UnicodeDecodeError path
  | ValueError path
  | OtherException string

datatype piece = S string | U nat | N nat | NSep nat | KB nat | E exn

type_synonym msg = "piece list"
type_synonym line = "colour list \<times> msg"

definition log :: "msg \<Rightarrow> colour list \<Rightarrow> line list" where
  "log message color = [(color, message)]"

definition log_success :: "msg \<Rightarrow> line list" where
  "log_success message = log ([U 0x2705, S '' ''] @ message) [OKGREEN]"

definition log_error :: "msg \<Rightarrow> line list" where
  "log_error message = log ([U 0x274C, S '' ''] @ message) [FAIL]"

definition log_warning :: "msg \<Rightarrow> line list" where
  "log_warning message = log ([U 0x26A0, U 0xFE0F, S ''  ''] @ message) [WARNING]"

definition log_header :: "msg \<Rightarrow> line list" where
  "log_header message =
     log ([S [CHR 0x0A], S (replicate 70 (CHR ''='')), S [CHR 0x0A]] @ message
          @ [S [CHR 0x0A], S (replicate 70 (CHR ''=''))]) [HEADER, BOLD]"



subsection \<open>Files\<close>

datatype node = File bytes | Dir

type_synonym fs = "(path \<times> node) list"

text \<open>\<open>os.path.exists\<close>: some node, file or directory, has the path.\<close>

definition path_exists :: "fs \<Rightarrow> path \<Rightarrow> bool" where
  "path_exists fs p = (map_of fs p \<noteq> None)"

text \<open>
  What the platform fixes: the text codec of the locale (\<open>decode\<close> is \<open>None\<close> where
  Python raises \<open>UnicodeDecodeError\<close>) and the size \<open>os.path.getsize\<close> reports for a
  directory.
\<close>

record platform =
  decode :: "bytes \<Rightarrow> str option"
  encode :: "str \<Rightarrow> bytes"
  dir_size :: nat

text \<open>
  A file opened with mode \<open>'r'\<close> is read with universal newlines: a carriage return,
  alone or followed by a line feed, is read as one line feed.
\<close>

fun universal_newlines :: "str \<Rightarrow> str" where
  "universal_newlines [] = []"
| "universal_newlines [c] = (if c = CHR 0x0D then [CHR 0x0A] else [c])"
| "universal_newlines (c # d # ds) =
     (if c = CHR 0x0D \<and> d = CHR 0x0A then CHR 0x0A # universal_newlines ds
      else if c = CHR 0x0D then CHR 0x0A # universal_newlines (d # ds)
      else c # universal_newlines (d # ds))"

text \<open>\<open>with open(p, 'r') as f: content = f.read()\<close>\<close>

definition read_text :: "platform \<Rightarrow> fs \<Rightarrow> path \<Rightarrow> exn + str" where
  "read_text pf fs p =
     (case map_of fs p of
        None \<Rightarrow> Inl (FileNotFoundError p)
      | Some Dir \<Rightarrow> Inl (IsADirectoryError p)
      | Some (File b) \<Rightarrow>
          (case decode pf b of
             None \<Rightarrow> Inl (UnicodeDecodeError p)
           | Some t \<Rightarrow> Inr (universal_newlines t)))"

subsection \<open>Step 2: source inventory\<close>

definition required_files :: "path list" where
  "required_files =
     [''src/index.js'',
      ''src/core/FrontendRAFT.js'',
      ''src/core/CacheLayer.js'',
      ''src/core/StreamManager.js'',
      ''src/core/BatchManager.js'',
      ''src/core/OptimisticEngine.js'',
      ''src/core/QueryEngine.js'',
      ''src/core/AuthLayer.js'',
      ''src/core/Router.js'',
      ''src/core/StorageLayer.js'',
      ''src/core/ComputeLayer.js'',
      ''src/core/P2PLayer.js'',
      ''src/core/CDNClient.js'',
      ''src/plugins/react.js'',
      ''src/plugins/vue.js'',
      ''src/utils/jwt.js'',
      ''src/utils/crypto.js'',
      ''src/utils/validation.js'']"

text \<open>
  The loop \<open>for file in files: if not os.path.exists(file): missing.append(file)\<close>,
  started with the list \<open>missing\<close>.
\<close>

fun collect_missing :: "fs \<Rightarrow> path list \<Rightarrow> path list \<Rightarrow> path list" where
  "collect_missing fs [] missing = missing"
| "collect_missing fs (file # files) missing =
     collect_missing fs files (if \<not> path_exists fs file then missing @ [file] else missing)"

text \<open>
  The body of \<open>validate_source_files\<close> for a manifest \<open>files\<close>; the source runs it on
  \<open>required_files\<close>.
\<close>

definition validate_files :: "path list \<Rightarrow> fs \<Rightarrow> line list \<times> bool" where
  "validate_files files fs =
     (let out = log_header [S ''Step 2: Validating Source Files''];
          missing = collect_missing fs files []
      in if missing \<noteq> []
         then (out @ log_error [S ''Missing '', N (length missing), S '' files:'']
                   @ concat (map (\<lambda>file. log [S ''  - '', S file] [FAIL]) missing),
               False)
         else (out @ log_success [S ''All '', N (length files), S '' source files present''],
               True))"

definition validate_source_files :: "fs \<Rightarrow> line list \<times> bool" where
  "validate_source_files fs = validate_files required_files fs"

subsection \<open>Step 4: injection check on the query engine\<close>



subsection \<open>Step 5: token check on the JWT utilities\<close>



subsection \<open>Step 8: the bundle\<close>

definition EXCLUDED_FROM_CDN :: "path list" where
  "EXCLUDED_FROM_CDN = [''src/plugins/react.js'', ''src/plugins/vue.js'']"

text \<open>
  \<open>Path(p).parents\<close>, outermost first and without the working directory: the proper
  prefixes of \<open>p\<close> that end before a separator. \<open>parents_from pre p\<close> lists them for
  the path \<open>pre @ p\<close> of which \<open>pre\<close> is already read.
\<close>

fun parents_from :: "path \<Rightarrow> path \<Rightarrow> path list" where
  "parents_from pre [] = []"
| "parents_from pre (c # cs) =
     (if c = CHR ''/'' then pre # parents_from (pre @ [c]) cs
      else parents_from (pre @ [c]) cs)"

definition parents :: "path \<Rightarrow> path list" where
  "parents p = parents_from [] p"

text \<open>
  \<open>Path('src').rglob('*.js')\<close>: the entries below \<open>src\<close>, files and directories, whose
  name ends in \<open>.js\<close>, in the order of enumeration. The walk only descends into
  directories, so every parent of a listed entry is a directory.
\<close>

definition rglob_js :: "fs \<Rightarrow> path list" where
  "rglob_js fs =
     filter (\<lambda>p. prefix ''src/'' p \<and> suffix ''.js'' p
                 \<and> list_all (\<lambda>d. map_of fs d = Some Dir) (parents p))
            (map fst fs)"

text \<open>\<open>src_file.relative_to('src')\<close>\<close>

definition relative_to_src :: "path \<Rightarrow> exn + path" where
  "relative_to_src p =
     (if prefix ''src/'' p then Inr (drop (length ''src/'') p) else Inl (ValueError p))"

text \<open>
  Creating the directories \<open>ds\<close>, outermost first, with \<open>exist_ok=True\<close>: a directory
  that exists is kept, a file in the way raises. This is \<open>os.makedirs(d, exist_ok=True)\<close>
  and \<open>d.mkdir(parents=True, exist_ok=True)\<close> for \<open>ds\<close> the parents of \<open>d\<close> followed by
  \<open>d\<close>.
\<close>

fun mkdirs :: "fs \<Rightarrow> path list \<Rightarrow> exn + fs" where
  "mkdirs fs [] = Inr fs"
| "mkdirs fs (d # ds) =
     (case map_of fs d of
        Some (File b) \<Rightarrow> Inl (if ds = [] then FileExistsError d else NotADirectoryError d)
      | Some Dir \<Rightarrow> mkdirs fs ds
      | None \<Rightarrow> mkdirs (AList.update d Dir fs) ds)"

text \<open>\<open>with open(p, 'w') as f: f.write(content)\<close>\<close>

definition write_text :: "platform \<Rightarrow> fs \<Rightarrow> path \<Rightarrow> str \<Rightarrow> exn + fs" where
  "write_text pf fs p content =
     (if \<not> list_all (\<lambda>d. map_of fs d = Some Dir) (parents p) then Inl (FileNotFoundError p)
      else case map_of fs p of
             Some Dir \<Rightarrow> Inl (IsADirectoryError p)
           | _ \<Rightarrow> Inr (AList.update p (File (encode pf content)) fs))"

text \<open>\<open>os.path.getsize\<close>\<close>

definition getsize :: "platform \<Rightarrow> fs \<Rightarrow> path \<Rightarrow> exn + nat" where
  "getsize pf fs p =
     (case map_of fs p of
        None \<Rightarrow> Inl (FileNotFoundError p)
      | Some Dir \<Rightarrow> Inr (dir_size pf)
      | Some (File b) \<Rightarrow> Inr (length b))"

text \<open>\<open>sum(os.path.getsize(f) for f in fs)\<close>, from the running sum \<open>acc\<close>.\<close>

fun sum_getsize :: "platform \<Rightarrow> fs \<Rightarrow> path list \<Rightarrow> nat \<Rightarrow> exn + nat" where
  "sum_getsize pf fs [] acc = Inr acc"
| "sum_getsize pf fs (f # fs') acc =
     (case getsize pf fs f of
        Inl e \<Rightarrow> Inl e
      | Inr n \<Rightarrow> sum_getsize pf fs fs' (acc + n))"

text \<open>\<open>any(excluded in src_path for excluded in EXCLUDED_FROM_CDN)\<close>\<close>

definition is_excluded :: "path \<Rightarrow> bool" where
  "is_excluded src_path = list_ex (\<lambda>excluded. str_in excluded src_path) EXCLUDED_FROM_CDN"

text \<open>
  The part of the loop body after the exclusion test: the destination path, its
  directories, the read and the write. It returns the file system as the statement
  that raised left it.
\<close>

definition copy_to_dist :: "platform \<Rightarrow> fs \<Rightarrow> path \<Rightarrow> fs \<times> (exn + path)" where
  "copy_to_dist pf fs src_path =
     (case relative_to_src src_path of
        Inl e \<Rightarrow> (fs, Inl e)
      | Inr rel_path \<Rightarrow>
          (let dist_path = ''dist/'' @ rel_path
           in case mkdirs fs (parents dist_path) of
                Inl e \<Rightarrow> (fs, Inl e)
              | Inr fs1 \<Rightarrow>
                  (case read_text pf fs1 src_path of
                     Inl e \<Rightarrow> (fs1, Inl e)
                   | Inr content \<Rightarrow>
                       (case write_text pf fs1 dist_path content of
                          Inl e \<Rightarrow> (fs1, Inl e)
                        | Inr fs2 \<Rightarrow> (fs2, Inr dist_path)))))"

text \<open>
  The loop \<open>for src_file in src_files\<close>, from the current file system and the current
  values of \<open>cdn_files\<close> and \<open>excluded_count\<close>.
\<close>

fun copy_loop ::
  "platform \<Rightarrow> path list \<Rightarrow> fs \<Rightarrow> path list \<Rightarrow> nat
     \<Rightarrow> fs \<times> line list \<times> (exn + path list \<times> nat)" where
  "copy_loop pf [] fs cdn_files excluded_count = (fs, [], Inr (cdn_files, excluded_count))"
| "copy_loop pf (src_path # src_files) fs cdn_files excluded_count =
     (if is_excluded src_path
      then (case copy_loop pf src_files fs cdn_files (excluded_count + 1) of
              (fs', out, r) \<Rightarrow>
                (fs', log_warning [S ''Excluded: '', S src_path, S '' (plugin template)''] @ out, r))
      else (case copy_to_dist pf fs src_path of
              (fs1, Inl e) \<Rightarrow> (fs1, [], Inl e)
            | (fs1, Inr dist_path) \<Rightarrow>
                copy_loop pf src_files fs1 (cdn_files @ [dist_path]) excluded_count))"

text \<open>
  The values of the locals of \<open>create_cdn_bundle\<close> when it returns, and the value it
  returns.
\<close>

record cdn_bundle =
  v_cdn_files :: "path list"
  v_excluded_count :: nat
  v_total_size :: nat
  v_return :: bool

definition create_cdn_bundle :: "platform \<Rightarrow> fs \<Rightarrow> fs \<times> line list \<times> (exn + cdn_bundle)" where
  "create_cdn_bundle pf fs =
     (let out = log_header [S ''Step 8: Creating CDN Bundle'']
      in case mkdirs fs (parents ''dist'' @ [''dist'']) of
           Inl e \<Rightarrow> (fs, out, Inl e)
         | Inr fs0 \<Rightarrow>
             (case copy_loop pf (rglob_js fs0) fs0 [] 0 of
                (fs1, out1, Inl e) \<Rightarrow> (fs1, out @ out1, Inl e)
              | (fs1, out1, Inr (cdn_files, excluded_count)) \<Rightarrow>
                  (let out2 = log_success [S ''CDN bundle created: '', N (length cdn_files), S '' files'']
                              @ log [S ''Excluded '', N excluded_count, S '' plugin files''] [OKBLUE]
                   in case sum_getsize pf fs1 cdn_files 0 of
                        Inl e \<Rightarrow> (fs1, out @ out1 @ out2, Inl e)
                      | Inr total_size \<Rightarrow>
                          (fs1,
                           out @ out1 @ out2
                           @ log [S ''Total bundle size: '', NSep total_size, S '' bytes ('',
                                  KB total_size, S '' KB)''] [OKBLUE]
                           @ (if total_size > 100 * 1024
                              then log_warning [S ''Bundle exceeds 100KB target''] else []),
                           Inr \<lparr>v_cdn_files = cdn_files, v_excluded_count = excluded_count,
                                v_total_size = total_size, v_return = True\<rparr>))))"

subsection \<open>The step loop of main\<close>

text \<open>
  A step is a name and an action. An action runs in a world \<open>'w\<close> (the file system, the
  network, the repository) and gives the world it leaves, the lines it printed, and the
  value it returned or the exception it raised.
\<close>

type_synonym 'w action = "'w \<Rightarrow> 'w \<times> line list \<times> (exn + bool)"
type_synonym 'w step = "string \<times> 'w action"

text \<open>
  The loop \<open>for step_name, step_func in steps\<close>, from the current world and the current
  \<open>results\<close>. The last component is \<open>Some b\<close> when the loop left \<open>main\<close> by \<open>return b\<close>
  and \<open>None\<close> when it ran to its end.
\<close>

fun step_loop ::
  "'w step list \<Rightarrow> 'w \<Rightarrow> (string \<times> bool) list
     \<Rightarrow> 'w \<times> line list \<times> (string \<times> bool) list \<times> bool option" where
  "step_loop [] w results = (w, [], results, None)"
| "step_loop ((step_name, step_func) # steps) w results =
     (case step_func w of
        (w1, out, Inr result) \<Rightarrow>
          (if \<not> result
           then (w1,
                 out @ log_error [U 0x274C, S '' Step failed: '', S step_name]
                     @ log [S [CHR 0x0A], S ''Build aborted due to failure.''] [OKBLUE],
                 results @ [(step_name, result)], Some False)
           else (case step_loop steps w1 (results @ [(step_name, result)]) of
                   (w2, out2, results2, r) \<Rightarrow> (w2, out @ out2, results2, r)))
      | (w1, out, Inl e) \<Rightarrow>
          (w1,
           out @ log_error [U 0x274C, S '' Exception in '', S step_name, S '': '', E e],
           results @ [(step_name, False)], Some False))"

definition VERSION :: string where
  "VERSION = ''0.1.0''"

definition REPO_OWNER :: string where
  "REPO_OWNER = ''Nexus-Studio-CEO''"

definition REPO_NAME :: string where
  "REPO_NAME = ''FrontendRAFT''"

text \<open>
  \<open>main\<close> on a list of steps; \<open>now\<close> is the formatted time of the clock. Besides the
  value returned it gives the world, the output and the list \<open>results\<close>. The source
  runs the loop on its thirteen steps, several of which call the network and git; the
  list is a parameter here, and what is proved of the loop holds of every list.
\<close>

definition main ::
  "str \<Rightarrow> 'w step list \<Rightarrow> 'w \<Rightarrow> 'w \<times> line list \<times> (string \<times> bool) list \<times> bool" where
  "main now steps w =
     (let out0 = log_header [U 0x1F680, S '' FrontendRAFT Complete Build & Publish'']
                 @ log [S ''Version: '', S VERSION] [OKBLUE]
                 @ log [S ''Date: '', S now] [OKBLUE]
                 @ log [S ''Based on CSOP v0.2.0'', S [CHR 0x0A]] [OKBLUE]
      in case step_loop steps w [] of
           (w1, out1, results, Some b) \<Rightarrow> (w1, out0 @ out1, results, b)
         | (w1, out1, results, None) \<Rightarrow>
             (let passed = length (filter snd results);
                  total = length results;
                  out2 = log_header [U 0x1F4CA, S '' Build Summary'']
                         @ log [S [CHR 0x0A], S ''Results: '', N passed, S ''/'', N total,
                                S '' steps passed''] [OKBLUE]
                         @ concat (map (\<lambda>(step_name, result).
                                          log [if result then U 0x2705 else U 0x274C,
                                               S '' '', S step_name] [OKBLUE]) results)
              in if passed = total
                 then (w1,
                       out0 @ out1 @ out2
                       @ log_header [U 0x1F389, S '' Build Complete - SUCCESS!'']
                       @ log [S [CHR 0x0A], U 0x2705, S '' FrontendRAFT v0.1.0 published successfully!''] [OKBLUE]
                       @ log [S [CHR 0x0A], S ''CDN URL:''] [OKBLUE]
                       @ log [S ''https://cdn.jsdelivr.net/gh/'', S REPO_OWNER, S ''/'', S REPO_NAME,
                              S ''@v'', S VERSION, S ''/src/index.js''] [OKBLUE]
                       @ log [S [CHR 0x0A], S ''GitHub: https://github.com/'', S REPO_OWNER, S ''/'',
                              S REPO_NAME] [OKBLUE]
                       @ log [S [CHR 0x0A], U 0x1F3AF, S '' Next steps:''] [OKBLUE]
                       @ log [S ''  1. Wait 5-10 minutes for CDN to update''] [OKBLUE]
                       @ log [S ''  2. Test examples in browser''] [OKBLUE]
                       @ log [S ''  3. Create GitHub Release with release notes''] [OKBLUE],
                       results, True)
                 else (w1,
                       out0 @ out1 @ out2
                       @ log_header [U 0x274C, S '' Build Failed'']
                       @ log [S [CHR 0x0A], N (total - passed),
                              S '' step(s) failed. Please fix errors and retry.''] [OKBLUE],
                       results, False)))"

text \<open>\<open>success = main(); sys.exit(0 if success else 1)\<close>: the exit status of the process.\<close>

definition exit_status :: "str \<Rightarrow> 'w step list \<Rightarrow> 'w \<Rightarrow> nat" where
  "exit_status now steps w =
     (case main now steps w of (w1, out, results, success) \<Rightarrow> if success then 0 else 1)"

subsection \<open>Reading a run of the step loop\<close>

text \<open>
  Two notions used to state what the loop does. The outcome of a step in a world is
  the value its action returns, an exception counting as \<open>False\<close>. \<open>run_passing\<close> runs
  a list of steps as long as each outcome is \<open>True\<close>: it gives the world reached and
  the lines printed when all of them pass, and \<open>None\<close> otherwise.
\<close>

definition outcome :: "'w step \<Rightarrow> 'w \<Rightarrow> bool" where
  "outcome s w = (case snd s w of (w1, out, Inr result) \<Rightarrow> result | (w1, out, Inl e) \<Rightarrow> False)"

fun run_passing :: "'w step list \<Rightarrow> 'w \<Rightarrow> ('w \<times> line list) option" where
  "run_passing [] w = Some (w, [])"
| "run_passing (s # steps) w =
     (if outcome s w
      then (case snd s w of
              (w1, out, r) \<Rightarrow>
                (case run_passing steps w1 of
                   Some (w2, out2) \<Rightarrow> Some (w2, out @ out2)
                 | None \<Rightarrow> None))
      else None)"

subsection \<open>Reading a run of the bundle step\<close>

text \<open>
  Notions used to state what the bundle step does. \<open>dist_of\<close> is the destination of a
  source path. \<open>copied_bytes\<close> is what a copy writes for a source file: its bytes
  decoded, read with universal newlines and encoded again. \<open>file_size\<close> is the length
  of a file, \<open>is_file\<close> tells files from directories and absent paths. \<open>included\<close> and
  \<open>excluded\<close> split an enumeration by the exclusion test. \<open>can_copy\<close> says that one
  copy would not raise: the source is below \<open>src\<close> and is a file that decodes, no
  parent of the destination is a file, and the destination is not a directory.
  \<open>loop_ok\<close> says it of every included path, and that no destination is a parent of
  another.
\<close>

definition dist_of :: "path \<Rightarrow> path" where
  "dist_of src_path = ''dist/'' @ drop (length ''src/'') src_path"

definition copied_bytes :: "platform \<Rightarrow> fs \<Rightarrow> path \<Rightarrow> bytes" where
  "copied_bytes pf fs p =
     (case map_of fs p of
        Some (File b) \<Rightarrow> (case decode pf b of Some t \<Rightarrow> encode pf (universal_newlines t) | None \<Rightarrow> [])
      | _ \<Rightarrow> [])"

definition file_size :: "fs \<Rightarrow> path \<Rightarrow> nat" where
  "file_size fs p = (case map_of fs p of Some (File b) \<Rightarrow> length b | _ \<Rightarrow> 0)"

definition is_file :: "fs \<Rightarrow> path \<Rightarrow> bool" where
  "is_file fs p = (case map_of fs p of Some (File b) \<Rightarrow> True | _ \<Rightarrow> False)"

definition can_copy :: "platform \<Rightarrow> fs \<Rightarrow> path \<Rightarrow> bool" where
  "can_copy pf fs p =
     (prefix ''src/'' p
      \<and> list_all (\<lambda>d. \<not> is_file fs d) (parents (dist_of p))
      \<and> (case map_of fs p of Some (File b) \<Rightarrow> decode pf b \<noteq> None | _ \<Rightarrow> False)
      \<and> map_of fs (dist_of p) \<noteq> Some Dir)"

definition included :: "path list \<Rightarrow> path list" where
  "included ps = filter (\<lambda>p. \<not> is_excluded p) ps"

definition excluded :: "path list \<Rightarrow> path list" where
  "excluded ps = filter is_excluded ps"

definition loop_ok :: "platform \<Rightarrow> fs \<Rightarrow> path list \<Rightarrow> bool" where
  "loop_ok pf fs inc =
     ((\<forall>p\<in>set inc. can_copy pf fs p)
      \<and> (\<forall>p\<in>set inc. \<forall>q\<in>set inc. dist_of q \<notin> set (parents (dist_of p))))"

subsection \<open>Sample inputs\<close>

text \<open>
  A platform whose codec maps each byte to one character; a tree with every required
  file but the router; trees holding only the query engine or the token utilities; and
  three step lists over a counter, in which step \<open>A\<close> adds 1, \<open>B\<close> adds 10 and \<open>C\<close>
  adds 100.
\<close>

definition byte_platform :: platform where
  "byte_platform = \<lparr>decode = Some, encode = id, dir_size = 4096\<rparr>"

definition tree_without_router :: fs where
  "tree_without_router = map (\<lambda>p. (p, File [])) (remove1 ''src/core/Router.js'' required_files)"




definition example_steps :: "nat step list" where
  "example_steps =
     [(''A'', \<lambda>w. (w + 1, [], Inr True)),
      (''B'', \<lambda>w. (w + 10, [], Inr False)),
      (''C'', \<lambda>w. (w + 100, [], Inr True))]"

definition raising_steps :: "nat step list" where
  "raising_steps =
     [(''A'', \<lambda>w. (w + 1, [], Inr True)),
      (''B'', \<lambda>w. (w + 10, [], Inl (OtherException ''boom''))),
      (''C'', \<lambda>w. (w + 100, [], Inr True))]"

definition passing_steps :: "nat step list" where
  "passing_steps =
     [(''A'', \<lambda>w. (w + 1, [], Inr True)),
      (''C'', \<lambda>w. (w + 100, [], Inr True))]"

text \<open>
  Trees for the bundle step: one whose only file is not JavaScript; one with two
  sources and one plugin, and the same tree enumerated in another order; one whose
  only source is one byte over the budget; one whose only source has a line ending in
  carriage return and line feed; and one with every required file.
\<close>

definition readme_tree :: fs where
  "readme_tree = [(''src'', Dir), (''src/readme.md'', File ''x'')]"

definition sample_tree :: fs where
  "sample_tree =
     [(''src'', Dir), (''src/index.js'', File ''abc''),
      (''src/plugins'', Dir), (''src/plugins/vue.js'', File ''v''),
      (''src/core'', Dir), (''src/core/Router.js'', File ''zz'')]"

definition sample_tree_reordered :: fs where
  "sample_tree_reordered =
     [(''src/core/Router.js'', File ''zz''), (''src/core'', Dir),
      (''src/plugins/vue.js'', File ''v''), (''src/plugins'', Dir),
      (''src/index.js'', File ''abc''), (''src'', Dir)]"

definition big_bytes :: bytes where
  "big_bytes = replicate (100 * 1024 + 1) (CHR ''a'')"

definition big_tree :: fs where
  "big_tree = [(''src'', Dir), (''src/index.js'', File big_bytes)]"

definition crlf_tree :: fs where
  "crlf_tree = [(''src'', Dir), (''src/a.js'', File [CHR ''a'', CHR 0x0D, CHR 0x0A, CHR ''b''])]"

definition full_tree :: fs where
  "full_tree =
     [(''src'', Dir), (''src/core'', Dir), (''src/plugins'', Dir), (''src/utils'', Dir)]
     @ map (\<lambda>p. (p, File ''//'')) required_files"

section \<open>Properties\<close>

subsection \<open>The substring test\<close>

text \<open>\<open>str_in\<close> holds exactly when the first list occurs in the second as a block.\<close>

lemma str_in_iff: "str_in sub s \<longleftrightarrow> (\<exists>ps ss. s = ps @ sub @ ss)"
proof (induction s)
  case Nil
  then show ?case by auto
next
  case (Cons c cs)
  show ?case
  proof
    assume "str_in sub (c # cs)"
    then consider "prefix sub (c # cs)" | "str_in sub cs" by auto
    then show "\<exists>ps ss. c # cs = ps @ sub @ ss"
    proof cases
      case 1
      then obtain ss where "c # cs = sub @ ss" by (auto simp: prefix_def)
      then have "c # cs = [] @ sub @ ss" by simp
      then show ?thesis by blast
    next
      case 2
      with Cons.IH obtain ps ss where "cs = ps @ sub @ ss" by blast
      then have "c # cs = (c # ps) @ sub @ ss" by simp
      then show ?thesis by blast
    qed
  next
    assume "\<exists>ps ss. c # cs = ps @ sub @ ss"
    then obtain ps ss where eq: "c # cs = ps @ sub @ ss" by blast
    show "str_in sub (c # cs)"
    proof (cases ps)
      case Nil
      with eq have "prefix sub (c # cs)" by (simp add: prefix_def)
      then show ?thesis by simp
    next
      case (Cons a ps')
      with eq have "cs = ps' @ sub @ ss" by simp
      with Cons.IH have "str_in sub cs" by blast
      then show ?thesis by simp
    qed
  qed
qed

subsection \<open>Source inventory\<close>

lemma collect_missing_filter:
  "collect_missing fs files missing = missing @ filter (\<lambda>p. \<not> path_exists fs p) files"
  by (induction files arbitrary: missing) auto

text \<open>
  C4. For every manifest \<open>M\<close> and every file system, the inventory check returns \<open>True\<close>
  exactly when every path of \<open>M\<close> exists. When it returns \<open>False\<close> it has printed, after
  the header and the count, one line for each missing path and for no other: the
  paths of \<open>M\<close> that do not exist, in the order of \<open>M\<close>. \<open>validate_source_files\<close> is
  this check on \<open>required_files\<close>.
\<close>

theorem validate_files_reports_missing:
  "(snd (validate_files M fs) \<longleftrightarrow> (\<forall>p\<in>set M. path_exists fs p))
   \<and> (\<not> snd (validate_files M fs) \<longrightarrow>
        fst (validate_files M fs) =
          log_header [S ''Step 2: Validating Source Files'']
          @ log_error [S ''Missing '', N (length (filter (\<lambda>p. \<not> path_exists fs p) M)), S '' files:'']
          @ map (\<lambda>file. ([FAIL], [S ''  - '', S file])) (filter (\<lambda>p. \<not> path_exists fs p) M))
   \<and> validate_source_files fs = validate_files required_files fs"
proof -
  have m: "collect_missing fs M [] = filter (\<lambda>p. \<not> path_exists fs p) M"
    by (simp add: collect_missing_filter)
  have e: "(filter (\<lambda>p. \<not> path_exists fs p) M = []) = (\<forall>p\<in>set M. path_exists fs p)"
    by (simp add: filter_empty_conv)
  have c: "concat (map (\<lambda>file. log [S ''  - '', S file] [FAIL]) xs)
             = map (\<lambda>file. ([FAIL], [S ''  - '', S file])) xs" for xs
    by (induction xs) (simp_all add: log_def)
  show ?thesis
    by (simp add: validate_files_def validate_source_files_def m e c Let_def)
qed

theorem validate_files_witness:
  "\<not> snd (validate_source_files tree_without_router)
   \<and> \<not> (\<forall>p\<in>set required_files. path_exists tree_without_router p)
   \<and> fst (validate_source_files tree_without_router) =
        log_header [S ''Step 2: Validating Source Files'']
        @ log_error [S ''Missing '', N 1, S '' files:'']
        @ [([FAIL], [S ''  - '', S ''src/core/Router.js''])]"
proof -
  have f: "filter (\<lambda>p. \<not> path_exists tree_without_router p) required_files = [''src/core/Router.js'']"
    by (simp add: tree_without_router_def required_files_def path_exists_def)
  show ?thesis
    using validate_files_reports_missing[of required_files tree_without_router] f
    by (auto simp: required_files_def)
qed

subsection \<open>Text checks\<close>






subsection \<open>The step loop\<close>

lemma step_loop_acc:
  "step_loop steps w acc =
     (case step_loop steps w [] of (w', out, res, r) \<Rightarrow> (w', out, acc @ res, r))"
proof (induction steps arbitrary: w acc)
  case Nil
  then show ?case by simp
next
  case (Cons s steps)
  obtain n f where s: "s = (n, f)" by (cases s)
  obtain w1 out x where f: "f w = (w1, out, x)" by (cases "f w")
  show ?case
  proof (cases x)
    case (Inl e)
    with s f show ?thesis by simp
  next
    case (Inr b)
    show ?thesis
    proof (cases b)
      case False
      with s f Inr show ?thesis by simp
    next
      case True
      have a: "step_loop steps w1 (acc @ [(n, True)]) =
                (case step_loop steps w1 [] of (w', out, res, r) \<Rightarrow> (w', out, (acc @ [(n, True)]) @ res, r))"
        by (rule Cons.IH)
      have b: "step_loop steps w1 [(n, True)] =
                (case step_loop steps w1 [] of (w', out, res, r) \<Rightarrow> (w', out, [(n, True)] @ res, r))"
        by (rule Cons.IH)
      show ?thesis using s f Inr True a b
        by (simp split: prod.splits)
    qed
  qed
qed

lemma step_loop_pass:
  assumes "outcome (n, f) w" and "f w = (w1, out1, x)"
  shows "step_loop ((n, f) # steps) w [] =
           (case step_loop steps w1 [] of
              (w2, out2, res, r) \<Rightarrow> (w2, out1 @ out2, (n, True) # res, r))"
proof -
  from assms have x: "x = Inr True"
    by (cases x) (auto simp: outcome_def)
  have "step_loop steps w1 [(n, True)] =
          (case step_loop steps w1 [] of (w', out, res, r) \<Rightarrow> (w', out, [(n, True)] @ res, r))"
    by (rule step_loop_acc)
  with assms(2) x show ?thesis by (simp split: prod.splits)
qed

lemma step_loop_stop:
  assumes "\<not> outcome (n, f) w" and "f w = (w1, out1, x)"
  shows "\<exists>out. step_loop ((n, f) # steps) w [] = (w1, out, [(n, False)], Some False)"
proof (cases x)
  case (Inl e)
  with assms(2) show ?thesis by simp
next
  case (Inr b)
  with assms have "\<not> b" by (simp add: outcome_def)
  with assms(2) Inr show ?thesis by simp
qed

lemma step_loop_prefix:
  assumes "run_passing pre w = Some (w1, out1)"
  shows "step_loop (pre @ rest) w [] =
           (case step_loop rest w1 [] of
              (w2, out2, res, r) \<Rightarrow> (w2, out1 @ out2, map (\<lambda>s. (fst s, True)) pre @ res, r))"
  using assms
proof (induction pre arbitrary: w w1 out1)
  case Nil
  then show ?case by (simp split: prod.splits)
next
  case (Cons s pre)
  obtain n f where s: "s = (n, f)" by (cases s)
  obtain wa outa x where f: "f w = (wa, outa, x)" by (cases "f w")
  from Cons.prems s have pass: "outcome (n, f) w"
    by (simp split: if_splits)
  from Cons.prems s f pass obtain outb where
    rp: "run_passing pre wa = Some (w1, outb)" and out1: "out1 = outa @ outb"
    by (auto split: option.splits)
  have "step_loop ((n, f) # (pre @ rest)) w [] =
          (case step_loop (pre @ rest) wa [] of
             (w2, out2, res, r) \<Rightarrow> (w2, outa @ out2, (n, True) # res, r))"
    by (rule step_loop_pass[OF pass f])
  also have "step_loop (pre @ rest) wa [] =
          (case step_loop rest w1 [] of
             (w2, out2, res, r) \<Rightarrow> (w2, outb @ out2, map (\<lambda>s. (fst s, True)) pre @ res, r))"
    by (rule Cons.IH[OF rp])
  finally show ?case using s out1 by (simp split: prod.splits)
qed

lemma step_loop_decompose:
  "(\<exists>w1 out1. run_passing steps w = Some (w1, out1)
       \<and> step_loop steps w [] = (w1, out1, map (\<lambda>s. (fst s, True)) steps, None))
   \<or> (\<exists>pre s post w1 out1 out2. steps = pre @ s # post
       \<and> run_passing pre w = Some (w1, out1) \<and> \<not> outcome s w1
       \<and> step_loop steps w [] =
           (fst (snd s w1), out1 @ out2, map (\<lambda>s. (fst s, True)) pre @ [(fst s, False)], Some False))"
proof (induction steps arbitrary: w)
  case Nil
  then show ?case by simp
next
  case (Cons s steps)
  obtain n f where s: "s = (n, f)" by (cases s)
  obtain wa outa x where f: "f w = (wa, outa, x)" by (cases "f w")
  show ?case
  proof (cases "outcome (n, f) w")
    case False
    from step_loop_stop[OF False f] obtain out where
      "step_loop ((n, f) # steps) w [] = (wa, out, [(n, False)], Some False)" by blast
    moreover have "\<exists>o2. out = [] @ o2" by simp
    ultimately have "\<exists>out2. s # steps = [] @ s # steps \<and> run_passing [] w = Some (w, [])
        \<and> \<not> outcome s w
        \<and> step_loop (s # steps) w [] =
             (fst (snd s w), [] @ out2, map (\<lambda>s. (fst s, True)) [] @ [(fst s, False)], Some False)"
      using s f False by auto
    then show ?thesis by blast
  next
    case True
    have sl: "step_loop ((n, f) # steps) w [] =
          (case step_loop steps wa [] of
             (w2, out2, res, r) \<Rightarrow> (w2, outa @ out2, (n, True) # res, r))"
      by (rule step_loop_pass[OF True f])
    from Cons.IH[of wa] show ?thesis
    proof (elim disjE exE conjE)
      fix w1 out1
      assume "run_passing steps wa = Some (w1, out1)"
        and "step_loop steps wa [] = (w1, out1, map (\<lambda>s. (fst s, True)) steps, None)"
      then show ?thesis using s f True sl by simp
    next
      fix pre t post w1 out1 out2
      assume a: "steps = pre @ t # post" "run_passing pre wa = Some (w1, out1)" "\<not> outcome t w1"
        and b: "step_loop steps wa [] =
           (fst (snd t w1), out1 @ out2, map (\<lambda>s. (fst s, True)) pre @ [(fst t, False)], Some False)"
      have "s # steps = (s # pre) @ t # post" using a by simp
      moreover have "run_passing (s # pre) w = Some (w1, outa @ out1)"
        using a s f True by simp
      moreover have "step_loop (s # steps) w [] =
           (fst (snd t w1), (outa @ out1) @ out2,
            map (\<lambda>s. (fst s, True)) (s # pre) @ [(fst t, False)], Some False)"
        using sl b s by simp
      ultimately show ?thesis using a(3) by blast
    qed
  qed
qed

lemma step_loop_stop_eq:
  assumes "\<not> outcome s w"
  shows "step_loop (s # post) w [] = step_loop [s] w []"
proof -
  obtain n f where s: "s = (n, f)" by (cases s)
  obtain w1 out x where f: "f w = (w1, out, x)" by (cases "f w")
  show ?thesis
  proof (cases x)
    case (Inl e)
    with s f show ?thesis by simp
  next
    case (Inr b)
    with assms s f have "\<not> b" by (simp add: outcome_def)
    with s f Inr show ?thesis by simp
  qed
qed

lemma step_loop_rest_unused:
  assumes "run_passing pre w = Some (w1, out1)" and "\<not> outcome s w1"
  shows "step_loop (pre @ s # post) w [] = step_loop (pre @ [s]) w []"
  by (simp add: step_loop_prefix[OF assms(1)] step_loop_stop_eq[OF assms(2), of post])

lemma run_passing_take:
  "run_passing (pre @ rest) w = Some r \<Longrightarrow> \<exists>r'. run_passing pre w = Some r'"
  by (induction pre arbitrary: w r) (auto split: if_splits prod.splits option.splits)

lemma run_passing_stops:
  "run_passing pre w = Some (w1, out1) \<Longrightarrow> \<not> outcome s w1
     \<Longrightarrow> run_passing (pre @ s # post) w = None"
proof (induction pre arbitrary: w out1)
  case Nil
  then show ?case by simp
next
  case (Cons a pre)
  obtain wa outa x where f: "snd a w = (wa, outa, x)" by (cases "snd a w")
  from Cons.prems(1) f obtain outb where "run_passing pre wa = Some (w1, outb)" and "outcome a w"
    by (auto split: if_splits option.splits)
  with Cons.IH[OF _ Cons.prems(2)] f show ?case by simp
qed

lemma count_all_true: "length (filter snd (map (\<lambda>s. (fst s, True)) xs)) = length xs"
  by (induction xs) auto

text \<open>
  C3. The loop runs the steps in the declared order and stops at the first whose
  outcome is not \<open>True\<close>. If \<open>k\<close> steps pass before it, \<open>results\<close> holds the names of the
  first \<open>k\<close> steps with \<open>True\<close> followed by the name of step \<open>k\<close> with \<open>False\<close>; if all
  pass, it holds every name with \<open>True\<close>. So \<open>results\<close> is as long as the number of steps
  run, at most the number declared, and whatever steps follow the failing one, the
  world, the output and the results are the same: their actions are not run.
\<close>

theorem step_loop_halts_at_first_non_pass:
  assumes "step_loop steps w [] = (w', out, results, r)"
  shows "length results \<le> length steps \<and>
         map fst results = take (length results) (map fst steps) \<and>
         (\<exists>k w1 out1. run_passing (take k steps) w = Some (w1, out1) \<and>
            (k = length steps \<and> r = None \<and> w' = w1 \<and> out = out1
               \<and> results = map (\<lambda>s. (fst s, True)) steps
             \<or> k < length steps \<and> r = Some False \<and> \<not> outcome (steps ! k) w1
               \<and> w' = fst (snd (steps ! k) w1)
               \<and> results = map (\<lambda>s. (fst s, True)) (take k steps) @ [(fst (steps ! k), False)]
               \<and> (\<forall>others. step_loop (take (Suc k) steps @ others) w [] = (w', out, results, r))))"
  using step_loop_decompose[of steps w]
proof (elim disjE exE conjE)
  fix w1 out1
  assume rp: "run_passing steps w = Some (w1, out1)"
    and sl: "step_loop steps w [] = (w1, out1, map (\<lambda>s. (fst s, True)) steps, None)"
  from sl assms have eq: "w' = w1" "out = out1" "results = map (\<lambda>s. (fst s, True)) steps" "r = None"
    by simp_all
  have "run_passing (take (length steps) steps) w = Some (w1, out1)" using rp by simp
  with eq have "\<exists>k w1 out1. run_passing (take k steps) w = Some (w1, out1) \<and>
            (k = length steps \<and> r = None \<and> w' = w1 \<and> out = out1
               \<and> results = map (\<lambda>s. (fst s, True)) steps
             \<or> k < length steps \<and> r = Some False \<and> \<not> outcome (steps ! k) w1
               \<and> w' = fst (snd (steps ! k) w1)
               \<and> results = map (\<lambda>s. (fst s, True)) (take k steps) @ [(fst (steps ! k), False)]
               \<and> (\<forall>others. step_loop (take (Suc k) steps @ others) w [] = (w', out, results, r)))"
    by blast
  moreover have "length results \<le> length steps" using eq by simp
  moreover have "map fst results = take (length results) (map fst steps)"
    using eq by (simp add: comp_def)
  ultimately show ?thesis by blast
next
  fix pre s post w1 out1 out2
  assume st: "steps = pre @ s # post"
    and rp: "run_passing pre w = Some (w1, out1)"
    and no: "\<not> outcome s w1"
    and sl: "step_loop steps w [] =
           (fst (snd s w1), out1 @ out2, map (\<lambda>s. (fst s, True)) pre @ [(fst s, False)], Some False)"
  let ?k = "length pre"
  from sl assms have eq: "w' = fst (snd s w1)" "out = out1 @ out2"
    "results = map (\<lambda>s. (fst s, True)) pre @ [(fst s, False)]" "r = Some False"
    by simp_all
  have tk: "take ?k steps = pre" and nth: "steps ! ?k = s" and tk1: "take (Suc ?k) steps = pre @ [s]"
    using st by simp_all
  have indep: "\<forall>others. step_loop (take (Suc ?k) steps @ others) w [] = (w', out, results, r)"
  proof
    fix others
    have "step_loop (pre @ s # others) w [] = step_loop (pre @ [s]) w []"
      by (rule step_loop_rest_unused[OF rp no])
    also have "\<dots> = step_loop (pre @ s # post) w []"
      by (rule step_loop_rest_unused[OF rp no, symmetric])
    finally show "step_loop (take (Suc ?k) steps @ others) w [] = (w', out, results, r)"
      using tk1 st assms by simp
  qed
  have "run_passing (take ?k steps) w = Some (w1, out1) \<and>
        ?k < length steps \<and> r = Some False \<and> \<not> outcome (steps ! ?k) w1
               \<and> w' = fst (snd (steps ! ?k) w1)
               \<and> results = map (\<lambda>s. (fst s, True)) (take ?k steps) @ [(fst (steps ! ?k), False)]
               \<and> (\<forall>others. step_loop (take (Suc ?k) steps @ others) w [] = (w', out, results, r))"
    using tk nth rp no eq indep st by simp
  then have "\<exists>k w1 out1. run_passing (take k steps) w = Some (w1, out1) \<and>
            (k = length steps \<and> r = None \<and> w' = w1 \<and> out = out1
               \<and> results = map (\<lambda>s. (fst s, True)) steps
             \<or> k < length steps \<and> r = Some False \<and> \<not> outcome (steps ! k) w1
               \<and> w' = fst (snd (steps ! k) w1)
               \<and> results = map (\<lambda>s. (fst s, True)) (take k steps) @ [(fst (steps ! k), False)]
               \<and> (\<forall>others. step_loop (take (Suc k) steps @ others) w [] = (w', out, results, r)))"
    by blast
  moreover have "length results \<le> length steps" using eq st by simp
  moreover have "map fst results = take (length results) (map fst steps)"
    using eq st by (simp add: comp_def)
  ultimately show ?thesis by blast
qed

lemma example_steps_run:
  "step_loop example_steps (0::nat) [] =
     (11, log_error [U 0x274C, S '' Step failed: '', S ''B'']
          @ log [S [CHR 0x0A], S ''Build aborted due to failure.''] [OKBLUE],
      [(''A'', True), (''B'', False)], Some False)"
  by (simp add: example_steps_def)

theorem step_loop_halts_witness:
  "step_loop example_steps (0::nat) [] =
     (11, log_error [U 0x274C, S '' Step failed: '', S ''B'']
          @ log [S [CHR 0x0A], S ''Build aborted due to failure.''] [OKBLUE],
      [(''A'', True), (''B'', False)], Some False)
   \<and> length [(''A'', True), (''B'', False)] \<le> length example_steps
   \<and> map fst [(''A'', True), (''B'', False)] = take 2 (map fst example_steps)"
  using step_loop_halts_at_first_non_pass[OF example_steps_run] example_steps_run
  by (simp add: numeral_2_eq_2)

text \<open>
  C7. When the steps before a step all pass and the step's action raises, the loop
  prints the exception, records the step's name with \<open>False\<close> after the names of the
  steps before it, and returns \<open>False\<close> from \<open>main\<close>; the world is the one the raising
  action left, whatever steps follow.
\<close>

theorem step_exception_stops_run:
  assumes "run_passing pre w = Some (w1, out1)" and "f w1 = (w2, out2, Inl e)"
  shows "step_loop (pre @ (name, f) # post) w [] =
           (w2,
            out1 @ out2 @ log_error [U 0x274C, S '' Exception in '', S name, S '': '', E e],
            map (\<lambda>s. (fst s, True)) pre @ [(name, False)],
            Some False)
         \<and> snd (snd (snd (main now (pre @ (name, f) # post) w))) = False
         \<and> exit_status now (pre @ (name, f) # post) w = 1"
proof -
  have a: "step_loop (pre @ (name, f) # post) w [] =
           (w2,
            out1 @ out2 @ log_error [U 0x274C, S '' Exception in '', S name, S '': '', E e],
            map (\<lambda>s. (fst s, True)) pre @ [(name, False)],
            Some False)"
    using assms(2) by (simp add: step_loop_prefix[OF assms(1)])
  then show ?thesis by (simp add: main_def exit_status_def)
qed

theorem step_exception_witness:
  "run_passing (take 1 raising_steps) (0::nat) = Some (1, [])
   \<and> step_loop raising_steps (0::nat) [] =
       (11, log_error [U 0x274C, S '' Exception in '', S ''B'', S '': '', E (OtherException ''boom'')],
        [(''A'', True), (''B'', False)], Some False)
   \<and> exit_status ''2025-12-28 00:00:00'' raising_steps (0::nat) = 1"
proof -
  have rp: "run_passing [(''A'', \<lambda>w. (w + 1, [], Inr True))] (0::nat) = Some (1, [])"
    by (simp add: outcome_def)
  have f: "(\<lambda>w::nat. (w + 10, [], Inl (OtherException ''boom''))) 1 = (11, [], Inl (OtherException ''boom''))"
    by simp
  show ?thesis
    using step_exception_stops_run[where pre="[(''A'', \<lambda>w. (w + 1, [], Inr True))]" and w="0::nat"
        and ?w1.0=1 and ?out1.0="[]" and f="\<lambda>w::nat. (w + 10, [], Inl (OtherException ''boom''))"
        and ?w2.0=11 and ?out2.0="[]" and e="OtherException ''boom''" and name="''B''"
        and post="[(''C'', \<lambda>w. (w + 100, [], Inr True))]" and now="''2025-12-28 00:00:00''", OF rp f] rp
    by (simp add: raising_steps_def)
qed

text \<open>
  C8. The exit status is 0 exactly when every declared step ran and returned \<open>True\<close>;
  otherwise, a step having returned \<open>False\<close> or raised, it is 1.
\<close>

theorem exit_status_zero_iff_all_pass:
  "(exit_status now steps w = 0 \<longleftrightarrow> (\<exists>w1 out1. run_passing steps w = Some (w1, out1)))
   \<and> (exit_status now steps w = 0 \<or> exit_status now steps w = 1)"
  using step_loop_decompose[of steps w]
proof (elim disjE exE conjE)
  fix w1 out1
  assume rp: "run_passing steps w = Some (w1, out1)"
    and sl: "step_loop steps w [] = (w1, out1, map (\<lambda>s. (fst s, True)) steps, None)"
  have "exit_status now steps w = 0"
    by (simp add: exit_status_def main_def sl count_all_true Let_def)
  with rp show ?thesis by simp
next
  fix pre s post w1 out1 out2
  assume st: "steps = pre @ s # post"
    and rp: "run_passing pre w = Some (w1, out1)"
    and no: "\<not> outcome s w1"
    and sl: "step_loop steps w [] =
           (fst (snd s w1), out1 @ out2, map (\<lambda>s. (fst s, True)) pre @ [(fst s, False)], Some False)"
  have one: "exit_status now steps w = 1"
    by (simp add: exit_status_def main_def sl)
  have "run_passing steps w = None"
    unfolding st by (rule run_passing_stops[OF rp no])
  with one show ?thesis by simp
qed

theorem exit_status_witness:
  "exit_status ''2025-12-28 00:00:00'' passing_steps (0::nat) = 0
   \<and> run_passing passing_steps (0::nat) = Some (101, [])
   \<and> exit_status ''2025-12-28 00:00:00'' example_steps (0::nat) = 1
   \<and> run_passing example_steps (0::nat) = None"
proof -
  have a: "run_passing passing_steps (0::nat) = Some (101, [])"
    by (simp add: passing_steps_def outcome_def)
  have b: "run_passing example_steps (0::nat) = None"
    by (simp add: example_steps_def outcome_def)
  show ?thesis
    using exit_status_zero_iff_all_pass[of "''2025-12-28 00:00:00''" passing_steps "0::nat"]
      exit_status_zero_iff_all_pass[of "''2025-12-28 00:00:00''" example_steps "0::nat"] a b
    by auto
qed

subsection \<open>The bundle\<close>

lemma parents_from_shape:
  "d \<in> set (parents_from pre p) \<Longrightarrow> \<exists>a b. p = a @ CHR ''/'' # b \<and> d = pre @ a"
proof (induction p arbitrary: pre)
  case Nil
  then show ?case by simp
next
  case (Cons c cs)
  show ?case
  proof (cases "d = pre \<and> c = CHR ''/''")
    case True
    then have "c # cs = [] @ CHR ''/'' # cs \<and> d = pre @ []" by simp
    then show ?thesis by blast
  next
    case False
    with Cons.prems have "d \<in> set (parents_from (pre @ [c]) cs)"
      by (auto split: if_splits)
    from Cons.IH[OF this] obtain a b where "cs = a @ CHR ''/'' # b" "d = (pre @ [c]) @ a" by blast
    then have "c # cs = (c # a) @ CHR ''/'' # b \<and> d = pre @ (c # a)" by simp
    then show ?thesis by blast
  qed
qed

lemma parents_dist: "parents (''dist/'' @ r) = ''dist'' # parents_from ''dist/'' r"
  by (simp add: parents_def)

lemma parents_dist_prefix:
  assumes "d \<in> set (parents (''dist/'' @ r))"
  shows "prefix ''dist'' d"
proof -
  from assms have "d \<in> set (''dist'' # parents_from ''dist/'' r)"
    unfolding parents_dist .
  then have "d = ''dist'' \<or> d \<in> set (parents_from ''dist/'' r)"
    by simp
  then show ?thesis
  proof
    assume "d = ''dist''" then show ?thesis by simp
  next
    assume "d \<in> set (parents_from ''dist/'' r)"
    from parents_from_shape[OF this] obtain a where "d = ''dist/'' @ a" by blast
    then show ?thesis by (simp add: prefix_def)
  qed
qed

lemma parents_proper:
  assumes "d \<in> set (parents p)"
  shows "d \<noteq> p"
proof -
  from assms parents_from_shape[of d "[]" p] obtain a b where "p = a @ CHR ''/'' # b" "d = a"
    by (auto simp: parents_def)
  then show ?thesis by auto
qed

lemma src_not_dist: "prefix ''src/'' p \<Longrightarrow> \<not> prefix ''dist'' p"
  by (auto simp: prefix_def)

lemma dist_of_inj: "prefix ''src/'' p \<Longrightarrow> prefix ''src/'' q \<Longrightarrow> dist_of p = dist_of q \<Longrightarrow> p = q"
  by (auto simp: prefix_def dist_of_def)

lemma dist_of_prefix: "prefix ''dist'' (dist_of p)"
  by (simp add: dist_of_def)

lemma mkdirs_map:
  "mkdirs fs ds = Inr fs' \<Longrightarrow>
     map_of fs' q = (if q \<in> set ds \<and> map_of fs q = None then Some Dir else map_of fs q)"
proof (induction ds arbitrary: fs)
  case Nil
  then show ?case by simp
next
  case (Cons d ds)
  show ?case
  proof (cases "map_of fs d")
    case None
    with Cons.prems have "mkdirs (AList.update d Dir fs) ds = Inr fs'" by simp
    from Cons.IH[OF this] None show ?thesis
      by (auto simp: update_conv')
  next
    case (Some n)
    with Cons.prems obtain "n = Dir" "mkdirs fs ds = Inr fs'"
      by (cases n) auto
    with Cons.IH[of fs] Some show ?thesis by auto
  qed
qed

lemma mkdirs_no_file:
  "mkdirs fs ds = Inr fs' \<Longrightarrow> d \<in> set ds \<Longrightarrow> map_of fs d \<noteq> Some (File b)"
proof (induction ds arbitrary: fs)
  case Nil
  then show ?case by simp
next
  case (Cons x ds)
  show ?case
  proof (cases "map_of fs x")
    case None
    with Cons.prems have m: "mkdirs (AList.update x Dir fs) ds = Inr fs'" by simp
    show ?thesis
    proof (cases "d = x")
      case True
      with None show ?thesis by simp
    next
      case False
      with Cons.prems have "d \<in> set ds" by simp
      from Cons.IH[OF m this] False show ?thesis by (simp add: update_conv')
    qed
  next
    case (Some n)
    with Cons.prems obtain n: "n = Dir" and m: "mkdirs fs ds = Inr fs'"
      by (cases n) auto
    show ?thesis
    proof (cases "d = x")
      case True
      with Some n show ?thesis by simp
    next
      case False
      with Cons.prems have "d \<in> set ds" by simp
      from Cons.IH[OF m this] show ?thesis .
    qed
  qed
qed

lemma mkdirs_succeeds:
  "(\<forall>d\<in>set ds. \<forall>b. map_of fs d \<noteq> Some (File b)) \<Longrightarrow> \<exists>fs'. mkdirs fs ds = Inr fs'"
proof (induction ds arbitrary: fs)
  case Nil
  then show ?case by simp
next
  case (Cons x ds)
  show ?case
  proof (cases "map_of fs x")
    case None
    have "\<forall>d\<in>set ds. \<forall>b. map_of (AList.update x Dir fs) d \<noteq> Some (File b)"
      using Cons.prems by (simp add: update_conv')
    from Cons.IH[OF this] None show ?thesis by simp
  next
    case (Some n)
    with Cons.prems have n: "n = Dir" by (cases n) auto
    from Cons.prems have "\<forall>d\<in>set ds. \<forall>b. map_of fs d \<noteq> Some (File b)" by simp
    from Cons.IH[OF this] Some n show ?thesis by simp
  qed
qed

lemma mkdirs_distinct:
  "mkdirs fs ds = Inr fs' \<Longrightarrow> distinct (map fst fs) \<Longrightarrow> distinct (map fst fs')"
proof (induction ds arbitrary: fs)
  case Nil
  then show ?case by simp
next
  case (Cons x ds)
  show ?case
  proof (cases "map_of fs x")
    case None
    with Cons.prems have m: "mkdirs (AList.update x Dir fs) ds = Inr fs'" by simp
    from Cons.IH[OF m] Cons.prems(2) show ?thesis by (simp add: distinct_update)
  next
    case (Some n)
    with Cons.prems obtain "n = Dir" "mkdirs fs ds = Inr fs'"
      by (cases n) auto
    with Cons.IH[of fs] Cons.prems(2) show ?thesis by simp
  qed
qed

lemma mkdirs_all_dirs:
  assumes "mkdirs fs ds = Inr fs'" and "d \<in> set ds"
  shows "map_of fs' d = Some Dir"
proof (cases "map_of fs d")
  case None
  with mkdirs_map[OF assms(1), of d] assms(2) show ?thesis by simp
next
  case (Some n)
  with mkdirs_no_file[OF assms] have "n = Dir" by (cases n) auto
  with Some mkdirs_map[OF assms(1), of d] show ?thesis by simp
qed

lemma is_file_iff: "is_file fs p \<longleftrightarrow> (\<exists>b. map_of fs p = Some (File b))"
  by (auto simp: is_file_def split: option.splits node.splits)

lemma relative_to_src_Inr: "relative_to_src p = Inr r \<Longrightarrow> prefix ''src/'' p \<and> ''dist/'' @ r = dist_of p"
  by (auto simp: relative_to_src_def dist_of_def split: if_splits)

lemma copy_to_dist_Inr:
  assumes "copy_to_dist pf fs p = (fs', Inr d)"
  shows "prefix ''src/'' p \<and> d = dist_of p \<and>
         (\<exists>fs1 content. mkdirs fs (parents (dist_of p)) = Inr fs1
            \<and> read_text pf fs1 p = Inr content
            \<and> write_text pf fs1 (dist_of p) content = Inr fs')"
proof -
  from assms obtain r where r: "relative_to_src p = Inr r"
    by (cases "relative_to_src p") (auto simp: copy_to_dist_def)
  then have p: "prefix ''src/'' p" and dp: "''dist/'' @ r = dist_of p"
    using relative_to_src_Inr by blast+
  from assms r dp obtain fs1 where m: "mkdirs fs (parents (dist_of p)) = Inr fs1"
    by (cases "mkdirs fs (parents (dist_of p))") (auto simp: copy_to_dist_def Let_def)
  from assms r dp m obtain content where c: "read_text pf fs1 p = Inr content"
    by (cases "read_text pf fs1 p") (auto simp: copy_to_dist_def Let_def)
  from assms r dp m c have "write_text pf fs1 (dist_of p) content = Inr fs' \<and> d = dist_of p"
    by (cases "write_text pf fs1 (dist_of p) content") (auto simp: copy_to_dist_def Let_def)
  with p m c show ?thesis by blast
qed

lemma read_text_Inr:
  "read_text pf fs p = Inr content \<longleftrightarrow>
     (\<exists>b t. map_of fs p = Some (File b) \<and> decode pf b = Some t \<and> content = universal_newlines t)"
  by (auto simp: read_text_def split: option.splits node.splits)

lemma write_text_Inr:
  "write_text pf fs p content = Inr fs' \<Longrightarrow>
     map_of fs' = (map_of fs)(p \<mapsto> File (encode pf content)) \<and> map_of fs p \<noteq> Some Dir"
  by (auto simp: write_text_def update_conv' split: if_splits option.splits node.splits)

lemma write_text_distinct:
  "write_text pf fs p content = Inr fs' \<Longrightarrow> distinct (map fst fs) \<Longrightarrow> distinct (map fst fs')"
  by (auto simp: write_text_def distinct_update split: if_splits option.splits node.splits)

lemma src_not_parent_of_dist:
  assumes "prefix ''src/'' q"
  shows "q \<notin> set (parents (dist_of p))"
proof
  assume "q \<in> set (parents (dist_of p))"
  then have "prefix ''dist'' q"
    unfolding dist_of_def by (rule parents_dist_prefix)
  with src_not_dist[OF assms] show False by simp
qed

lemma copy_to_dist_map:
  assumes "copy_to_dist pf fs p = (fs', Inr d)"
  shows "map_of fs' q =
           (if q = dist_of p then Some (File (copied_bytes pf fs p))
            else if q \<in> set (parents (dist_of p)) \<and> map_of fs q = None then Some Dir
            else map_of fs q)"
proof -
  from copy_to_dist_Inr[OF assms] obtain fs1 content where
    p: "prefix ''src/'' p" and
    m: "mkdirs fs (parents (dist_of p)) = Inr fs1" and
    c: "read_text pf fs1 p = Inr content" and
    w: "write_text pf fs1 (dist_of p) content = Inr fs'" by blast
  have same: "map_of fs1 p = map_of fs p"
    using mkdirs_map[OF m, of p] src_not_parent_of_dist[OF p] by simp
  from c obtain b t where b: "map_of fs1 p = Some (File b)" "decode pf b = Some t"
    "content = universal_newlines t"
    by (auto simp: read_text_Inr)
  from b(1) same have "map_of fs p = Some (File b)" by simp
  with b(2,3) have cb: "encode pf content = copied_bytes pf fs p"
    by (simp add: copied_bytes_def)
  from write_text_Inr[OF w] have "map_of fs' q = ((map_of fs1)(dist_of p \<mapsto> File (encode pf content))) q"
    by simp
  with cb mkdirs_map[OF m, of q] show ?thesis by simp
qed

lemma copy_to_dist_can_copy:
  assumes "copy_to_dist pf fs p = (fs', Inr d)"
  shows "can_copy pf fs p"
proof -
  from copy_to_dist_Inr[OF assms] obtain fs1 content where
    p: "prefix ''src/'' p" and
    m: "mkdirs fs (parents (dist_of p)) = Inr fs1" and
    c: "read_text pf fs1 p = Inr content" and
    w: "write_text pf fs1 (dist_of p) content = Inr fs'" by blast
  have same: "map_of fs1 p = map_of fs p"
    using mkdirs_map[OF m, of p] src_not_parent_of_dist[OF p] by simp
  have a: "list_all (\<lambda>d. \<not> is_file fs d) (parents (dist_of p))"
    using mkdirs_no_file[OF m] by (auto simp: list_all_iff is_file_iff)
  have b: "(case map_of fs p of Some (File b) \<Rightarrow> decode pf b \<noteq> None | _ \<Rightarrow> False)"
    using c same by (auto simp: read_text_Inr)
  have "map_of fs1 (dist_of p) \<noteq> Some Dir" using write_text_Inr[OF w] by simp
  moreover have "dist_of p \<notin> set (parents (dist_of p))" using parents_proper by blast
  ultimately have "map_of fs (dist_of p) \<noteq> Some Dir"
    using mkdirs_map[OF m, of "dist_of p"] by simp
  with p a b show ?thesis by (simp add: can_copy_def)
qed

lemma can_copy_copy_to_dist:
  assumes "can_copy pf fs p"
  shows "\<exists>fs'. copy_to_dist pf fs p = (fs', Inr (dist_of p))"
proof -
  from assms have p: "prefix ''src/'' p"
    and a: "\<forall>d\<in>set (parents (dist_of p)). \<forall>b. map_of fs d \<noteq> Some (File b)"
    and nd: "map_of fs (dist_of p) \<noteq> Some Dir"
    by (auto simp: can_copy_def list_all_iff is_file_iff)
  from assms obtain b t where b: "map_of fs p = Some (File b)" "decode pf b = Some t"
    by (auto simp: can_copy_def split: option.splits node.splits)
  from p have r: "relative_to_src p = Inr (drop (length ''src/'') p)"
    by (simp add: relative_to_src_def)
  from mkdirs_succeeds[OF a] obtain fs1 where m: "mkdirs fs (parents (dist_of p)) = Inr fs1" by blast
  have same: "map_of fs1 p = map_of fs p"
    using mkdirs_map[OF m, of p] src_not_parent_of_dist[OF p] by simp
  with b have c: "read_text pf fs1 p = Inr (universal_newlines t)"
    by (simp add: read_text_Inr)
  have "dist_of p \<notin> set (parents (dist_of p))" using parents_proper by blast
  then have "map_of fs1 (dist_of p) \<noteq> Some Dir"
    using mkdirs_map[OF m, of "dist_of p"] nd by simp
  moreover have "list_all (\<lambda>d. map_of fs1 d = Some Dir) (parents (dist_of p))"
    using mkdirs_all_dirs[OF m] by (simp add: list_all_iff)
  ultimately have "\<exists>fs2. write_text pf fs1 (dist_of p) (universal_newlines t) = Inr fs2"
    by (cases "map_of fs1 (dist_of p)")
       (auto simp: write_text_def split: option.splits node.splits)
  then obtain fs2 where w: "write_text pf fs1 (dist_of p) (universal_newlines t) = Inr fs2"
    by blast
  have "copy_to_dist pf fs p = (fs2, Inr (dist_of p))"
    using r m c w by (simp add: copy_to_dist_def dist_of_def)
  then show ?thesis by blast
qed

lemma copy_to_dist_distinct:
  assumes "copy_to_dist pf fs p = (fs', Inr d)" and "distinct (map fst fs)"
  shows "distinct (map fst fs')"
proof -
  from copy_to_dist_Inr[OF assms(1)] obtain fs1 content where
    m: "mkdirs fs (parents (dist_of p)) = Inr fs1" and
    w: "write_text pf fs1 (dist_of p) content = Inr fs'" by blast
  from write_text_distinct[OF w mkdirs_distinct[OF m assms(2)]] show ?thesis .
qed

text \<open>The copy leaves every path outside dist as it was, whether it raises or not.\<close>

lemma copy_to_dist_frame:
  assumes "copy_to_dist pf fs p = (fs', r)" and "\<not> prefix ''dist'' q"
  shows "map_of fs' q = map_of fs q"
proof (cases "relative_to_src p")
  case (Inl e)
  with assms(1) show ?thesis by (simp add: copy_to_dist_def)
next
  case (Inr rel)
  then have dp: "''dist/'' @ rel = dist_of p" using relative_to_src_Inr by blast
  have np: "q \<notin> set (parents (dist_of p))"
    using assms(2) parents_dist_prefix[of q] unfolding dist_of_def by blast
  have nq: "q \<noteq> dist_of p" using assms(2) dist_of_prefix[of p] by auto
  show ?thesis
  proof (cases "mkdirs fs (parents (dist_of p))")
    case (Inl e)
    with assms(1) Inr dp show ?thesis by (simp add: copy_to_dist_def Let_def)
  next
    case m: (Inr fs1)
    have s1: "map_of fs1 q = map_of fs q" using mkdirs_map[OF m, of q] np by simp
    show ?thesis
    proof (cases "read_text pf fs1 p")
      case (Inl e)
      with assms(1) Inr dp m s1 show ?thesis by (simp add: copy_to_dist_def Let_def)
    next
      case c: (Inr content)
      show ?thesis
      proof (cases "write_text pf fs1 (dist_of p) content")
        case (Inl e)
        with assms(1) Inr dp m c s1 show ?thesis by (simp add: copy_to_dist_def Let_def)
      next
        case w: (Inr fs2)
        with assms(1) Inr dp m c have "fs' = fs2" by (simp add: copy_to_dist_def Let_def)
        with write_text_Inr[OF w] nq s1 show ?thesis by simp
      qed
    qed
  qed
qed

lemma copy_loop_shape:
  "copy_loop pf ps fs cdn k = (fs', out, Inr (cdn', k')) \<Longrightarrow>
     cdn' = cdn @ map dist_of (included ps)
     \<and> k' = k + length (excluded ps)
     \<and> out = concat (map (\<lambda>p. log_warning [S ''Excluded: '', S p, S '' (plugin template)''])
                         (excluded ps))
     \<and> (\<forall>p\<in>set (included ps). prefix ''src/'' p)"
proof (induction ps arbitrary: fs cdn k out)
  case Nil
  then show ?case by (simp add: included_def excluded_def)
next
  case (Cons p ps)
  show ?case
  proof (cases "is_excluded p")
    case True
    obtain fs2 out2 r2 where l: "copy_loop pf ps fs cdn (k + 1) = (fs2, out2, r2)"
      by (cases "copy_loop pf ps fs cdn (k + 1)")
    with Cons.prems True have "r2 = Inr (cdn', k')" "fs2 = fs'"
      and o: "out = log_warning [S ''Excluded: '', S p, S '' (plugin template)''] @ out2"
      by simp_all
    with l have "copy_loop pf ps fs cdn (k + 1) = (fs', out2, Inr (cdn', k'))" by simp
    from Cons.IH[OF this] True o show ?thesis
      by (simp add: included_def excluded_def)
  next
    case False
    obtain fs1 r where c: "copy_to_dist pf fs p = (fs1, r)" by (cases "copy_to_dist pf fs p")
    with Cons.prems False obtain d where r: "r = Inr d"
      by (cases r) auto
    with c copy_to_dist_Inr[of pf fs p fs1 d] have d: "d = dist_of p" and pp: "prefix ''src/'' p"
      by simp_all
    from Cons.prems False c r have "copy_loop pf ps fs1 (cdn @ [d]) k = (fs', out, Inr (cdn', k'))"
      by simp
    from Cons.IH[OF this] False d pp show ?thesis
      by (simp add: included_def excluded_def)
  qed
qed

lemma copy_loop_frame:
  "copy_loop pf ps fs cdn k = (fs', out, r) \<Longrightarrow> \<not> prefix ''dist'' q
     \<Longrightarrow> map_of fs' q = map_of fs q"
proof (induction ps arbitrary: fs cdn k out)
  case Nil
  then show ?case by simp
next
  case (Cons p ps)
  show ?case
  proof (cases "is_excluded p")
    case True
    obtain fs2 out2 r2 where l: "copy_loop pf ps fs cdn (k + 1) = (fs2, out2, r2)"
      by (cases "copy_loop pf ps fs cdn (k + 1)")
    with Cons.prems True have "fs2 = fs'" "r2 = r" by simp_all
    with l have "copy_loop pf ps fs cdn (k + 1) = (fs', out2, r)" by simp
    from Cons.IH[OF this Cons.prems(2)] show ?thesis .
  next
    case False
    obtain fs1 x where c: "copy_to_dist pf fs p = (fs1, x)" by (cases "copy_to_dist pf fs p")
    have f1: "map_of fs1 q = map_of fs q"
      by (rule copy_to_dist_frame[OF c Cons.prems(2)])
    show ?thesis
    proof (cases x)
      case (Inl e)
      with Cons.prems False c f1 show ?thesis by simp
    next
      case (Inr d)
      with Cons.prems False c have "copy_loop pf ps fs1 (cdn @ [d]) k = (fs', out, r)" by simp
      from Cons.IH[OF this Cons.prems(2)] f1 show ?thesis by simp
    qed
  qed
qed

lemma copy_loop_distinct:
  "copy_loop pf ps fs cdn k = (fs', out, Inr res) \<Longrightarrow> distinct (map fst fs)
     \<Longrightarrow> distinct (map fst fs')"
proof (induction ps arbitrary: fs cdn k out)
  case Nil
  then show ?case by simp
next
  case (Cons p ps)
  show ?case
  proof (cases "is_excluded p")
    case True
    obtain fs2 out2 r2 where l: "copy_loop pf ps fs cdn (k + 1) = (fs2, out2, r2)"
      by (cases "copy_loop pf ps fs cdn (k + 1)")
    with Cons.prems True have "fs2 = fs'" "r2 = Inr res" by simp_all
    with Cons.IH[OF _ Cons.prems(2)] l show ?thesis by simp
  next
    case False
    obtain fs1 x where c: "copy_to_dist pf fs p = (fs1, x)" by (cases "copy_to_dist pf fs p")
    with Cons.prems False obtain d where x: "x = Inr d" by (cases x) auto
    from copy_to_dist_distinct[OF c[unfolded x] Cons.prems(2)] have d1: "distinct (map fst fs1)" .
    from Cons.prems False c x have "copy_loop pf ps fs1 (cdn @ [d]) k = (fs', out, Inr res)" by simp
    from Cons.IH[OF this d1] show ?thesis .
  qed
qed

lemma copied_bytes_cong: "map_of fs1 p = map_of fs p \<Longrightarrow> copied_bytes pf fs1 p = copied_bytes pf fs p"
  by (simp add: copied_bytes_def)

text \<open>Paths that are not the destination of a copied file.\<close>

lemma copy_loop_other:
  "copy_loop pf ps fs cdn k = (fs', out, Inr res) \<Longrightarrow> q \<notin> dist_of ` set (included ps) \<Longrightarrow>
     map_of fs' q =
       (if (\<exists>p\<in>set (included ps). q \<in> set (parents (dist_of p))) \<and> map_of fs q = None
        then Some Dir else map_of fs q)"
proof (induction ps arbitrary: fs cdn k out)
  case Nil
  then show ?case by (simp add: included_def)
next
  case (Cons p ps)
  show ?case
  proof (cases "is_excluded p")
    case True
    obtain fs2 out2 r2 where l: "copy_loop pf ps fs cdn (k + 1) = (fs2, out2, r2)"
      by (cases "copy_loop pf ps fs cdn (k + 1)")
    with Cons.prems True have "fs2 = fs'" "r2 = Inr res" by simp_all
    with l have "copy_loop pf ps fs cdn (k + 1) = (fs', out2, Inr res)" by simp
    from Cons.IH[OF this] Cons.prems(2) True show ?thesis by (simp add: included_def)
  next
    case False
    obtain fs1 x where c: "copy_to_dist pf fs p = (fs1, x)" by (cases "copy_to_dist pf fs p")
    with Cons.prems False obtain d where x: "x = Inr d" by (cases x) auto
    from Cons.prems False c x have l: "copy_loop pf ps fs1 (cdn @ [d]) k = (fs', out, Inr res)" by simp
    from Cons.prems(2) False have qp: "q \<noteq> dist_of p" and qr: "q \<notin> dist_of ` set (included ps)"
      by (auto simp: included_def)
    have m1: "map_of fs1 q =
           (if q \<in> set (parents (dist_of p)) \<and> map_of fs q = None then Some Dir else map_of fs q)"
      using copy_to_dist_map[OF c[unfolded x], of q] qp by simp
    have inc: "included (p # ps) = p # included ps" using False by (simp add: included_def)
    from Cons.IH[OF l qr] m1 show ?thesis unfolding inc by auto
  qed
qed

text \<open>The destination of a copied file holds the copy.\<close>

lemma copy_loop_copied:
  "copy_loop pf ps fs cdn k = (fs', out, Inr res) \<Longrightarrow> p \<in> set (included ps) \<Longrightarrow>
     map_of fs' (dist_of p) = Some (File (copied_bytes pf fs p))"
proof (induction ps arbitrary: fs cdn k out)
  case Nil
  then show ?case by (simp add: included_def)
next
  case (Cons a ps)
  show ?case
  proof (cases "is_excluded a")
    case True
    obtain fs2 out2 r2 where l: "copy_loop pf ps fs cdn (k + 1) = (fs2, out2, r2)"
      by (cases "copy_loop pf ps fs cdn (k + 1)")
    with Cons.prems True have "fs2 = fs'" "r2 = Inr res" by simp_all
    with l have "copy_loop pf ps fs cdn (k + 1) = (fs', out2, Inr res)" by simp
    from Cons.IH[OF this] Cons.prems(2) True show ?thesis by (simp add: included_def)
  next
    case False
    obtain fs1 x where c: "copy_to_dist pf fs a = (fs1, x)" by (cases "copy_to_dist pf fs a")
    with Cons.prems False obtain d where x: "x = Inr d" by (cases x) auto
    from Cons.prems False c x have l: "copy_loop pf ps fs1 (cdn @ [d]) k = (fs', out, Inr res)" by simp
    obtain cdn' k' where res: "res = (cdn', k')" by (cases res)
    from copy_loop_shape[OF l[unfolded res]] have src: "\<forall>p\<in>set (included ps). prefix ''src/'' p"
      by simp
    from copy_to_dist_Inr[OF c[unfolded x]] have sa: "prefix ''src/'' a" by simp
    have same: "copied_bytes pf fs1 t = copied_bytes pf fs t" if "prefix ''src/'' t" for t
      by (rule copied_bytes_cong)
         (rule copy_to_dist_frame[OF c src_not_dist[OF that]])
    show ?thesis
    proof (cases "p \<in> set (included ps)")
      case True
      from Cons.IH[OF l True] same src True show ?thesis by simp
    next
      case np: False
      with Cons.prems(2) False have pa: "p = a" by (auto simp: included_def)
      have "dist_of a \<notin> dist_of ` set (included ps)"
      proof
        assume "dist_of a \<in> dist_of ` set (included ps)"
        then obtain t where t: "t \<in> set (included ps)" "dist_of a = dist_of t" by blast
        with src have "prefix ''src/'' t" by blast
        from dist_of_inj[OF sa this t(2)] t(1) np pa show False by simp
      qed
      from copy_loop_other[OF l this] copy_to_dist_map[OF c[unfolded x], of "dist_of a"] pa
      show ?thesis by simp
    qed
  qed
qed

lemma copy_map_is_file:
  assumes "copy_to_dist pf fs p = (fs1, Inr d)"
  shows "is_file fs1 q \<longleftrightarrow> q = dist_of p \<or> is_file fs q"
  using copy_to_dist_map[OF assms, of q] by (auto simp: is_file_iff)

lemma can_copy_cong:
  "map_of fs1 = map_of fs2 \<Longrightarrow> can_copy pf fs1 p = can_copy pf fs2 p"
  by (simp add: can_copy_def is_file_def)

text \<open>After one copy, the copies that could be made are those that do not collide with it.\<close>

lemma can_copy_after:
  assumes c: "copy_to_dist pf fs p = (fs1, Inr d)" and q: "prefix ''src/'' q"
  shows "can_copy pf fs1 q \<longleftrightarrow>
           can_copy pf fs q \<and> dist_of p \<notin> set (parents (dist_of q))
           \<and> dist_of q \<notin> set (parents (dist_of p))"
proof -
  note m = copy_to_dist_map[OF c]
  have cp: "can_copy pf fs p" by (rule copy_to_dist_can_copy[OF c])
  have pnd: "map_of fs (dist_of p) \<noteq> Some Dir"
    and pnf: "\<forall>a\<in>set (parents (dist_of p)). \<not> is_file fs a"
    using cp by (auto simp: can_copy_def list_all_iff)
  have src: "map_of fs1 q = map_of fs q"
    by (rule copy_to_dist_frame[OF c src_not_dist[OF q]])
  have files: "list_all (\<lambda>a. \<not> is_file fs1 a) (parents (dist_of q))
                \<longleftrightarrow> list_all (\<lambda>a. \<not> is_file fs a) (parents (dist_of q))
                    \<and> dist_of p \<notin> set (parents (dist_of q))"
    by (auto simp: list_all_iff copy_map_is_file[OF c])
  have dir: "map_of fs1 (dist_of q) \<noteq> Some Dir
              \<longleftrightarrow> map_of fs (dist_of q) \<noteq> Some Dir \<and> dist_of q \<notin> set (parents (dist_of p))"
  proof (cases "dist_of q = dist_of p")
    case True
    with m[of "dist_of q"] pnd parents_proper[of "dist_of q" "dist_of p"] show ?thesis by auto
  next
    case False
    show ?thesis
    proof (cases "dist_of q \<in> set (parents (dist_of p))")
      case True
      with pnf have nf: "\<not> is_file fs (dist_of q)" by blast
      have "map_of fs1 (dist_of q) = Some Dir"
      proof (cases "map_of fs (dist_of q)")
        case None
        with m[of "dist_of q"] False True show ?thesis by simp
      next
        case (Some a)
        with nf have "a = Dir" by (cases a) (auto simp: is_file_iff)
        with Some m[of "dist_of q"] False show ?thesis by simp
      qed
      with True show ?thesis by simp
    next
      case nf: False
      with m[of "dist_of q"] False show ?thesis by simp
    qed
  qed
  show ?thesis
    unfolding can_copy_def files dir src using q by auto
qed

lemma copy_loop_succeeds_iff:
  "(\<exists>fs' out res. copy_loop pf ps fs cdn k = (fs', out, Inr res)) \<longleftrightarrow> loop_ok pf fs (included ps)"
proof (induction ps arbitrary: fs cdn k)
  case Nil
  then show ?case by (simp add: loop_ok_def included_def)
next
  case (Cons p ps)
  show ?case
  proof (cases "is_excluded p")
    case True
    have "(\<exists>fs' out res. copy_loop pf (p # ps) fs cdn k = (fs', out, Inr res))
          \<longleftrightarrow> (\<exists>fs' out res. copy_loop pf ps fs cdn (k + 1) = (fs', out, Inr res))"
      using True by (auto split: prod.splits)
    with Cons.IH[of fs cdn "k + 1"] True show ?thesis by (simp add: included_def)
  next
    case False
    have inc: "included (p # ps) = p # included ps" using False by (simp add: included_def)
    show ?thesis
    proof (cases "can_copy pf fs p")
      case nc: False
      have "\<not> (\<exists>fs' out res. copy_loop pf (p # ps) fs cdn k = (fs', out, Inr res))"
      proof
        assume "\<exists>fs' out res. copy_loop pf (p # ps) fs cdn k = (fs', out, Inr res)"
        then obtain fs' out res where l: "copy_loop pf (p # ps) fs cdn k = (fs', out, Inr res)" by blast
        obtain fs1 x where c: "copy_to_dist pf fs p = (fs1, x)" by (cases "copy_to_dist pf fs p")
        with l False obtain d where "x = Inr d" by (cases x) auto
        with c copy_to_dist_can_copy[of pf fs p fs1 d] nc show False by simp
      qed
      with nc show ?thesis unfolding inc by (simp add: loop_ok_def)
    next
      case yc: True
      from can_copy_copy_to_dist[OF yc] obtain fs1 where c: "copy_to_dist pf fs p = (fs1, Inr (dist_of p))"
        by blast
      have pp: "prefix ''src/'' p" using yc by (simp add: can_copy_def)
      have step: "copy_loop pf (p # ps) fs cdn k = copy_loop pf ps fs1 (cdn @ [dist_of p]) k"
        using False c by simp
      have ih: "(\<exists>fs' out res. copy_loop pf ps fs1 (cdn @ [dist_of p]) k = (fs', out, Inr res))
                \<longleftrightarrow> loop_ok pf fs1 (included ps)"
        by (rule Cons.IH)
      have "loop_ok pf fs1 (included ps) \<longleftrightarrow> loop_ok pf fs (p # included ps)"
      proof
        assume ok: "loop_ok pf fs1 (included ps)"
        then have src: "\<forall>q\<in>set (included ps). prefix ''src/'' q"
          by (auto simp: loop_ok_def can_copy_def)
        have a: "\<forall>q\<in>set (included ps). can_copy pf fs q \<and> dist_of p \<notin> set (parents (dist_of q))
                   \<and> dist_of q \<notin> set (parents (dist_of p))"
          using ok src can_copy_after[OF c] by (auto simp: loop_ok_def)
        have b: "dist_of p \<notin> set (parents (dist_of p))" using parents_proper by blast
        show "loop_ok pf fs (p # included ps)"
          using ok a b yc by (auto simp: loop_ok_def)
      next
        assume ok: "loop_ok pf fs (p # included ps)"
        then have src: "\<forall>q\<in>set (included ps). prefix ''src/'' q"
          by (auto simp: loop_ok_def can_copy_def)
        have "\<forall>q\<in>set (included ps). can_copy pf fs1 q"
        proof
          fix q assume q: "q \<in> set (included ps)"
          with src have "prefix ''src/'' q" by blast
          from can_copy_after[OF c this] ok q show "can_copy pf fs1 q"
            by (auto simp: loop_ok_def)
        qed
        with ok show "loop_ok pf fs1 (included ps)" by (auto simp: loop_ok_def)
      qed
      with ih step show ?thesis unfolding inc by simp
    qed
  qed
qed

lemma parents_dist_dir: "parents ''dist'' @ [''dist''] = [''dist'']"
  by (simp add: parents_def)

lemma src_parent_not_dist:
  assumes "prefix ''src/'' p" and "d \<in> set (parents p)"
  shows "d \<noteq> ''dist''"
proof
  assume "d = ''dist''"
  with assms(2) parents_from_shape[of d "[]" p] obtain b where "p = ''dist'' @ CHR ''/'' # b"
    by (auto simp: parents_def)
  with assms(1) show False by (simp add: prefix_def)
qed

lemma mkdir_dist_map:
  assumes "mkdirs fs [''dist''] = Inr fs0"
  shows "map_of fs0 q = (if q = ''dist'' \<and> map_of fs q = None then Some Dir else map_of fs q)"
  using mkdirs_map[OF assms, of q] by simp

lemma mkdir_dist_keys:
  assumes "mkdirs fs [''dist''] = Inr fs0"
  shows "map fst fs0 = map fst fs \<or> map fst fs0 = map fst fs @ [''dist'']"
proof (cases "map_of fs ''dist''")
  case None
  with assms have "fs0 = AList.update ''dist'' Dir fs" by simp
  then show ?thesis by (simp add: update_keys)
next
  case (Some n)
  with assms have "fs0 = fs" by (cases n) auto
  then show ?thesis by simp
qed

lemma rglob_js_cong:
  assumes "\<And>q. q \<noteq> ''dist'' \<Longrightarrow> map_of fs0 q = map_of fs q"
    and "map fst fs0 = map fst fs \<or> map fst fs0 = map fst fs @ [''dist'']"
  shows "rglob_js fs0 = rglob_js fs"
proof -
  have P: "(prefix ''src/'' p \<and> suffix ''.js'' p
              \<and> list_all (\<lambda>d. map_of fs0 d = Some Dir) (parents p))
         = (prefix ''src/'' p \<and> suffix ''.js'' p
              \<and> list_all (\<lambda>d. map_of fs d = Some Dir) (parents p))" for p
    using assms(1) src_parent_not_dist[of p] by (auto simp: list_all_iff)
  from assms(2) show ?thesis
  proof
    assume "map fst fs0 = map fst fs"
    then show ?thesis by (simp add: rglob_js_def P)
  next
    assume "map fst fs0 = map fst fs @ [''dist'']"
    then show ?thesis by (simp add: rglob_js_def P)
  qed
qed

lemma rglob_js_after_mkdir:
  assumes "mkdirs fs [''dist''] = Inr fs0"
  shows "rglob_js fs0 = rglob_js fs"
  by (rule rglob_js_cong) (simp_all add: mkdir_dist_map[OF assms] mkdir_dist_keys[OF assms])

lemma rglob_js_src: "p \<in> set (rglob_js fs) \<Longrightarrow> prefix ''src/'' p"
  by (simp add: rglob_js_def)

lemma rglob_js_distinct: "distinct (map fst fs) \<Longrightarrow> distinct (rglob_js fs)"
  by (simp add: rglob_js_def)

lemma sum_getsize_files:
  "(\<forall>d\<in>set ds. is_file fs d) \<Longrightarrow>
     sum_getsize pf fs ds acc = Inr (acc + sum_list (map (file_size fs) ds))"
proof (induction ds arbitrary: acc)
  case Nil
  then show ?case by simp
next
  case (Cons d ds)
  from Cons.prems obtain b where b: "map_of fs d = Some (File b)" by (auto simp: is_file_iff)
  then have g: "getsize pf fs d = Inr (file_size fs d)"
    by (simp add: getsize_def file_size_def)
  from Cons.prems have "\<forall>d\<in>set ds. is_file fs d" by simp
  from Cons.IH[OF this, of "acc + file_size fs d"] g show ?case by (simp add: add.assoc)
qed

text \<open>What a run of the bundle step that returns has done.\<close>

lemma create_cdn_bundle_Inr:
  assumes "create_cdn_bundle pf fs = (fs', out, Inr b)"
  shows "\<exists>fs0 out1 cdn k total.
           mkdirs fs [''dist''] = Inr fs0
           \<and> copy_loop pf (rglob_js fs) fs0 [] 0 = (fs', out1, Inr (cdn, k))
           \<and> sum_getsize pf fs' cdn 0 = Inr total
           \<and> b = \<lparr>v_cdn_files = cdn, v_excluded_count = k, v_total_size = total, v_return = True\<rparr>
           \<and> out = log_header [S ''Step 8: Creating CDN Bundle''] @ out1
                   @ log_success [S ''CDN bundle created: '', N (length cdn), S '' files'']
                   @ log [S ''Excluded '', N k, S '' plugin files''] [OKBLUE]
                   @ log [S ''Total bundle size: '', NSep total, S '' bytes ('', KB total, S '' KB)'']
                       [OKBLUE]
                   @ (if total > 100 * 1024 then log_warning [S ''Bundle exceeds 100KB target'']
                      else [])"
proof -
  from assms obtain fs0 where m: "mkdirs fs [''dist''] = Inr fs0"
    by (cases "mkdirs fs [''dist'']") (auto simp: create_cdn_bundle_def parents_dist_dir Let_def simp del: mkdirs.simps)
  have rg: "rglob_js fs0 = rglob_js fs" by (rule rglob_js_after_mkdir[OF m])
  obtain fs1 out1 r where l: "copy_loop pf (rglob_js fs) fs0 [] 0 = (fs1, out1, r)"
    by (cases "copy_loop pf (rglob_js fs) fs0 [] 0")
  from assms m rg l obtain cdn k where r: "r = Inr (cdn, k)"
    by (cases r) (auto simp: create_cdn_bundle_def parents_dist_dir Let_def simp del: mkdirs.simps)
  from assms m rg l r obtain total where t: "sum_getsize pf fs1 cdn 0 = Inr total"
    by (cases "sum_getsize pf fs1 cdn 0") (auto simp: create_cdn_bundle_def parents_dist_dir Let_def simp del: mkdirs.simps)
  from assms m rg l r t have "fs' = fs1"
    and "b = \<lparr>v_cdn_files = cdn, v_excluded_count = k, v_total_size = total, v_return = True\<rparr>"
    and "out = log_header [S ''Step 8: Creating CDN Bundle''] @ out1
                   @ log_success [S ''CDN bundle created: '', N (length cdn), S '' files'']
                   @ log [S ''Excluded '', N k, S '' plugin files''] [OKBLUE]
                   @ log [S ''Total bundle size: '', NSep total, S '' bytes ('', KB total, S '' KB)'']
                       [OKBLUE]
                   @ (if total > 100 * 1024 then log_warning [S ''Bundle exceeds 100KB target'']
                      else [])"
    by (auto simp: create_cdn_bundle_def parents_dist_dir Let_def simp del: mkdirs.simps)
  with m l r t show ?thesis by blast
qed

lemma copied_bytes_after_mkdir:
  assumes "mkdirs fs [''dist''] = Inr fs0" and "prefix ''src/'' p"
  shows "copied_bytes pf fs0 p = copied_bytes pf fs p"
proof -
  from assms(2) have "p \<noteq> ''dist''" by (auto simp: prefix_def)
  with mkdir_dist_map[OF assms(1), of p] have "map_of fs0 p = map_of fs p" by simp
  then show ?thesis by (rule copied_bytes_cong)
qed

text \<open>The closed form of a run that returns.\<close>

lemma create_cdn_bundle_result:
  assumes "create_cdn_bundle pf fs = (fs', out, Inr b)"
  shows "v_cdn_files b = map dist_of (included (rglob_js fs))"
    and "v_excluded_count b = length (excluded (rglob_js fs))"
    and "\<forall>p\<in>set (included (rglob_js fs)).
            map_of fs' (dist_of p) = Some (File (copied_bytes pf fs p))"
    and "v_total_size b = sum_list (map (\<lambda>p. length (copied_bytes pf fs p)) (included (rglob_js fs)))"
    and "v_total_size b = sum_list (map (file_size fs') (v_cdn_files b))"
    and "v_return b"
proof -
  from create_cdn_bundle_Inr[OF assms] obtain fs0 out1 cdn k total where
    m: "mkdirs fs [''dist''] = Inr fs0" and
    l: "copy_loop pf (rglob_js fs) fs0 [] 0 = (fs', out1, Inr (cdn, k))" and
    t: "sum_getsize pf fs' cdn 0 = Inr total" and
    b: "b = \<lparr>v_cdn_files = cdn, v_excluded_count = k, v_total_size = total, v_return = True\<rparr>"
    by blast
  from copy_loop_shape[OF l] have cdn: "cdn = map dist_of (included (rglob_js fs))"
    and k: "k = length (excluded (rglob_js fs))"
    and src: "\<forall>p\<in>set (included (rglob_js fs)). prefix ''src/'' p"
    by simp_all
  show c1: "v_cdn_files b = map dist_of (included (rglob_js fs))" using b cdn by simp
  show "v_excluded_count b = length (excluded (rglob_js fs))" using b k by simp
  show cp: "\<forall>p\<in>set (included (rglob_js fs)).
            map_of fs' (dist_of p) = Some (File (copied_bytes pf fs p))"
  proof
    fix p assume p: "p \<in> set (included (rglob_js fs))"
    from src p have "prefix ''src/'' p" by blast
    from copied_bytes_after_mkdir[OF m this] have "copied_bytes pf fs0 p = copied_bytes pf fs p" .
    with copy_loop_copied[OF l p]
    show "map_of fs' (dist_of p) = Some (File (copied_bytes pf fs p))" by simp
  qed
  have size: "file_size fs' (dist_of p) = length (copied_bytes pf fs p)"
    if "p \<in> set (included (rglob_js fs))" for p
  proof -
    from cp that have "map_of fs' (dist_of p) = Some (File (copied_bytes pf fs p))" by blast
    then show ?thesis by (simp add: file_size_def)
  qed
  have files: "\<forall>d\<in>set cdn. is_file fs' d"
  proof
    fix d assume "d \<in> set cdn"
    then obtain p where p: "p \<in> set (included (rglob_js fs))" and d: "d = dist_of p"
      unfolding cdn by auto
    from cp p have "map_of fs' (dist_of p) = Some (File (copied_bytes pf fs p))" by blast
    then show "is_file fs' d" unfolding d by (simp add: is_file_def)
  qed
  have "sum_getsize pf fs' cdn 0 = Inr (0 + sum_list (map (file_size fs') cdn))"
    by (rule sum_getsize_files[OF files])
  with t have tot: "total = sum_list (map (file_size fs') cdn)" by simp
  have vt: "v_total_size b = total" and vc: "v_cdn_files b = cdn" unfolding b by simp_all
  show "v_total_size b = sum_list (map (file_size fs') (v_cdn_files b))"
    unfolding vt vc by (rule tot)
  have eq: "map (file_size fs') (map dist_of (included (rglob_js fs)))
          = map (\<lambda>p. length (copied_bytes pf fs p)) (included (rglob_js fs))"
    by (simp add: size)
  show "v_total_size b
      = sum_list (map (\<lambda>p. length (copied_bytes pf fs p)) (included (rglob_js fs)))"
    unfolding vt tot cdn eq ..
  show "v_return b" using b by simp
qed

lemma create_cdn_bundle_succeeds_iff:
  "(\<exists>fs' out b. create_cdn_bundle pf fs = (fs', out, Inr b))
   \<longleftrightarrow> (\<exists>fs0. mkdirs fs [''dist''] = Inr fs0 \<and> loop_ok pf fs0 (included (rglob_js fs)))"
proof
  assume "\<exists>fs' out b. create_cdn_bundle pf fs = (fs', out, Inr b)"
  then obtain fs' out b where c: "create_cdn_bundle pf fs = (fs', out, Inr b)" by blast
  from create_cdn_bundle_Inr[OF c] obtain fs0 out1 cdn k where
    m: "mkdirs fs [''dist''] = Inr fs0" and
    l: "copy_loop pf (rglob_js fs) fs0 [] 0 = (fs', out1, Inr (cdn, k))" by blast
  from l have "\<exists>fs' out res. copy_loop pf (rglob_js fs) fs0 [] 0 = (fs', out, Inr res)" by blast
  then have "loop_ok pf fs0 (included (rglob_js fs))" by (rule iffD1[OF copy_loop_succeeds_iff])
  with m show "\<exists>fs0. mkdirs fs [''dist''] = Inr fs0 \<and> loop_ok pf fs0 (included (rglob_js fs))"
    by blast
next
  assume "\<exists>fs0. mkdirs fs [''dist''] = Inr fs0 \<and> loop_ok pf fs0 (included (rglob_js fs))"
  then obtain fs0 where m: "mkdirs fs [''dist''] = Inr fs0"
    and ok: "loop_ok pf fs0 (included (rglob_js fs))" by blast
  have rg: "rglob_js fs0 = rglob_js fs" by (rule rglob_js_after_mkdir[OF m])
  from ok obtain fs1 out1 res where l: "copy_loop pf (rglob_js fs) fs0 [] 0 = (fs1, out1, Inr res)"
    using copy_loop_succeeds_iff[of pf "rglob_js fs" fs0 "[]" 0] by blast
  obtain cdn k where res: "res = (cdn, k)" by (cases res)
  from copy_loop_shape[OF l[unfolded res]] have cdn: "cdn = map dist_of (included (rglob_js fs))"
    by simp
  have files: "\<forall>d\<in>set cdn. is_file fs1 d"
  proof
    fix d assume "d \<in> set cdn"
    then obtain p where p: "p \<in> set (included (rglob_js fs))" and d: "d = dist_of p"
      unfolding cdn by auto
    from copy_loop_copied[OF l p] show "is_file fs1 d" unfolding d by (simp add: is_file_def)
  qed
  have "sum_getsize pf fs1 cdn 0 = Inr (0 + sum_list (map (file_size fs1) cdn))"
    by (rule sum_getsize_files[OF files])
  then obtain total where t: "sum_getsize pf fs1 cdn 0 = Inr total" by blast
  have "\<exists>out b. create_cdn_bundle pf fs = (fs1, out, Inr b)"
    unfolding create_cdn_bundle_def parents_dist_dir Let_def
    by (simp add: m rg l res t del: mkdirs.simps)
  then show "\<exists>fs' out b. create_cdn_bundle pf fs = (fs', out, Inr b)" by blast
qed

lemma included_excluded_length:
  "length (included ps) = length ps - length (excluded ps)"
  using sum_length_filter_compl[of is_excluded ps] by (simp add: included_def excluded_def)

text \<open>
  C2, as amended. The step enumerates the entries below \<open>src\<close> whose name ends in
  \<open>.js\<close>, not every file. When the step returns, with \<open>N\<close> such entries of which \<open>K\<close>
  have a path containing an exclusion rule, \<open>cdn_files\<close> has \<open>N - K\<close> paths,
  \<open>excluded_count\<close> is \<open>K\<close>, no entry is both copied and excluded, and every entry
  that is not excluded has been copied to the same relative path under \<open>dist\<close>.
\<close>

theorem bundle_counts_and_copies:
  assumes "create_cdn_bundle pf fs = (fs', out, Inr b)"
  shows "length (v_cdn_files b) = length (rglob_js fs) - length (filter is_excluded (rglob_js fs))
       \<and> v_excluded_count b = length (filter is_excluded (rglob_js fs))
       \<and> v_cdn_files b = map dist_of (filter (\<lambda>p. \<not> is_excluded p) (rglob_js fs))
       \<and> set (filter (\<lambda>p. \<not> is_excluded p) (rglob_js fs)) \<inter> set (filter is_excluded (rglob_js fs)) = {}
       \<and> (\<forall>p\<in>set (rglob_js fs). \<not> is_excluded p \<longrightarrow>
             map_of fs' (dist_of p) = Some (File (copied_bytes pf fs p)))"
proof -
  note r = create_cdn_bundle_result[OF assms]
  have a: "length (v_cdn_files b) = length (rglob_js fs) - length (filter is_excluded (rglob_js fs))"
    using r(1) included_excluded_length[of "rglob_js fs"] by (simp add: excluded_def)
  have b: "v_excluded_count b = length (filter is_excluded (rglob_js fs))"
    using r(2) by (simp add: excluded_def)
  have c: "v_cdn_files b = map dist_of (filter (\<lambda>p. \<not> is_excluded p) (rglob_js fs))"
    using r(1) by (simp add: included_def)
  have d: "set (filter (\<lambda>p. \<not> is_excluded p) (rglob_js fs)) \<inter> set (filter is_excluded (rglob_js fs)) = {}"
    by auto
  have e: "\<forall>p\<in>set (rglob_js fs). \<not> is_excluded p \<longrightarrow>
             map_of fs' (dist_of p) = Some (File (copied_bytes pf fs p))"
    using r(3) by (simp add: included_def)
  from a b c d e show ?thesis by blast
qed

lemma dist_of_distinct:
  assumes "distinct ps" and "\<forall>p\<in>set ps. prefix ''src/'' p"
  shows "distinct (map dist_of ps)"
proof -
  have "inj_on dist_of (set ps)"
    using assms(2) by (auto intro!: inj_onI dist_of_inj)
  with assms(1) show ?thesis by (simp add: distinct_map)
qed

lemma warning_not_excluded_line:
  "([WARNING], [U 0x26A0, U 0xFE0F, S ''  '', S ''Bundle exceeds 100KB target''])
     \<notin> set (concat (map (\<lambda>p. log_warning [S ''Excluded: '', S p, S '' (plugin template)'']) ps))"
  by (induction ps) (simp_all add: log_warning_def log_def)

text \<open>
  C6, as amended. When the step returns, \<open>total_size\<close> is the sum of the sizes of the
  files of \<open>cdn_files\<close>, the copies under \<open>dist\<close>, as they are on disk after the
  copies. That is the sum over the included sources of the number of bytes written for
  each, not of the sizes of the sources; for a tree without duplicate paths it is the
  sum over the set of copied files. The warning about the budget is printed exactly
  when the total exceeds \<open>100 * 1024\<close>, and the step returns \<open>True\<close> either way.
\<close>

theorem bundle_total_and_budget:
  assumes "create_cdn_bundle pf fs = (fs', out, Inr b)"
  shows "v_total_size b = sum_list (map (file_size fs') (v_cdn_files b))
       \<and> (\<forall>d\<in>set (v_cdn_files b). is_file fs' d)
       \<and> v_total_size b
           = sum_list (map (\<lambda>p. length (copied_bytes pf fs p))
                           (filter (\<lambda>p. \<not> is_excluded p) (rglob_js fs)))
       \<and> (distinct (map fst fs) \<longrightarrow>
             distinct (v_cdn_files b)
             \<and> v_total_size b = (\<Sum>d\<in>set (v_cdn_files b). file_size fs' d))
       \<and> (([WARNING], [U 0x26A0, U 0xFE0F, S ''  '', S ''Bundle exceeds 100KB target'']) \<in> set out
            \<longleftrightarrow> v_total_size b > 100 * 1024)
       \<and> v_return b"
proof -
  note r = create_cdn_bundle_result[OF assms]
  have files: "\<forall>d\<in>set (v_cdn_files b). is_file fs' d"
  proof
    fix d assume "d \<in> set (v_cdn_files b)"
    then obtain p where p: "p \<in> set (included (rglob_js fs))" and d: "d = dist_of p"
      unfolding r(1) by auto
    from r(3) p show "is_file fs' d" unfolding d by (simp add: is_file_def)
  qed
  have tot: "v_total_size b
           = sum_list (map (\<lambda>p. length (copied_bytes pf fs p))
                           (filter (\<lambda>p. \<not> is_excluded p) (rglob_js fs)))"
    using r(4) by (simp add: included_def)
  have dis: "distinct (map fst fs) \<longrightarrow>
             distinct (v_cdn_files b)
             \<and> v_total_size b = (\<Sum>d\<in>set (v_cdn_files b). file_size fs' d)"
  proof
    assume "distinct (map fst fs)"
    then have "distinct (included (rglob_js fs))"
      using rglob_js_distinct[of fs] by (simp add: included_def)
    moreover have "\<forall>p\<in>set (included (rglob_js fs)). prefix ''src/'' p"
      using rglob_js_src[of _ fs] by (simp add: included_def)
    ultimately have dd: "distinct (v_cdn_files b)"
      unfolding r(1) by (rule dist_of_distinct)
    from sum_list_distinct_conv_sum_set[OF dd, of "file_size fs'"] r(5)
    show "distinct (v_cdn_files b)
             \<and> v_total_size b = (\<Sum>d\<in>set (v_cdn_files b). file_size fs' d)"
      using dd by simp
  qed
  from create_cdn_bundle_Inr[OF assms] obtain fs0 out1 cdn k total where
    l: "copy_loop pf (rglob_js fs) fs0 [] 0 = (fs', out1, Inr (cdn, k))" and
    b: "b = \<lparr>v_cdn_files = cdn, v_excluded_count = k, v_total_size = total, v_return = True\<rparr>" and
    out: "out = log_header [S ''Step 8: Creating CDN Bundle''] @ out1
                   @ log_success [S ''CDN bundle created: '', N (length cdn), S '' files'']
                   @ log [S ''Excluded '', N k, S '' plugin files''] [OKBLUE]
                   @ log [S ''Total bundle size: '', NSep total, S '' bytes ('', KB total, S '' KB)'']
                       [OKBLUE]
                   @ (if total > 100 * 1024 then log_warning [S ''Bundle exceeds 100KB target'']
                      else [])"
    by blast
  from copy_loop_shape[OF l] have o1: "out1 = concat (map (\<lambda>p. log_warning [S ''Excluded: '', S p, S '' (plugin template)''])
                         (excluded (rglob_js fs)))" by simp
  have vt: "v_total_size b = total" unfolding b by simp
  have warn: "(([WARNING], [U 0x26A0, U 0xFE0F, S ''  '', S ''Bundle exceeds 100KB target'']) \<in> set out
            \<longleftrightarrow> v_total_size b > 100 * 1024)"
    unfolding vt out o1
    using warning_not_excluded_line[of "excluded (rglob_js fs)"]
    by (simp add: log_header_def log_success_def log_warning_def log_def)
  from r(5) files tot dis warn r(6) show ?thesis by blast
qed

lemma loop_ok_cong:
  assumes "map_of fsA = map_of fsB" and "set incA = set incB"
  shows "loop_ok pf fsA incA = loop_ok pf fsB incB"
  unfolding loop_ok_def assms(2) using can_copy_cong[OF assms(1)] by simp

lemma rglob_js_mset:
  assumes "map_of fs1 = map_of fs2" and "mset (map fst fs1) = mset (map fst fs2)"
  shows "mset (rglob_js fs1) = mset (rglob_js fs2)"
proof -
  have "mset (rglob_js fs1) =
          filter_mset (\<lambda>p. prefix ''src/'' p \<and> suffix ''.js'' p
                 \<and> list_all (\<lambda>d. map_of fs1 d = Some Dir) (parents p)) (mset (map fst fs1))"
    unfolding rglob_js_def by (rule mset_filter)
  also have "\<dots> =
          filter_mset (\<lambda>p. prefix ''src/'' p \<and> suffix ''.js'' p
                 \<and> list_all (\<lambda>d. map_of fs2 d = Some Dir) (parents p)) (mset (map fst fs2))"
    unfolding assms ..
  also have "\<dots> = mset (rglob_js fs2)"
    unfolding rglob_js_def by (rule mset_filter[symmetric])
  finally show ?thesis .
qed

lemma same_tree:
  assumes "distinct (map fst fs1)" and "distinct (map fst fs2)" and "set fs1 = set fs2"
  shows "map_of fs1 = map_of fs2" and "mset (rglob_js fs1) = mset (rglob_js fs2)"
proof -
  show m: "map_of fs1 = map_of fs2"
    using map_of_inject_set[OF assms(1,2)] assms(3) by simp
  have "distinct fs1" "distinct fs2"
    using assms(1,2) by (simp_all add: distinct_map)
  with assms(3) have "mset fs1 = mset fs2"
    by (simp add: set_eq_iff_mset_eq_distinct)
  then have "mset (map fst fs1) = mset (map fst fs2)"
    by (metis mset_map)
  with m show "mset (rglob_js fs1) = mset (rglob_js fs2)" by (rule rglob_js_mset)
qed

lemma final_tree:
  assumes "copy_loop pf ps fs0 cdn k = (fs', out, Inr res)"
  shows "map_of fs' q =
           (if q \<in> dist_of ` set (included ps)
            then Some (File (copied_bytes pf fs0 (''src/'' @ drop (length ''dist/'') q)))
            else if (\<exists>p\<in>set (included ps). q \<in> set (parents (dist_of p))) \<and> map_of fs0 q = None
            then Some Dir else map_of fs0 q)"
proof (cases "q \<in> dist_of ` set (included ps)")
  case True
  then obtain p where p: "p \<in> set (included ps)" and q: "q = dist_of p" by blast
  obtain cdn' k' where res: "res = (cdn', k')" by (cases res)
  from copy_loop_shape[OF assms[unfolded res]] p have "prefix ''src/'' p" by simp
  then have "''src/'' @ drop (length ''dist/'') q = p"
    unfolding q by (auto simp: dist_of_def prefix_def)
  with copy_loop_copied[OF assms p] True q show ?thesis by simp
next
  case False
  with copy_loop_other[OF assms False] show ?thesis by simp
qed

text \<open>
  C9. Two association lists with the same entries, each path occurring once, are the
  same tree enumerated in two orders. If the step returns on one it returns on the
  other, with the same set of copied files, the same sets of included and of excluded
  sources, the same count of excluded files, the same total, and the same files on
  disk.
\<close>

theorem bundle_independent_of_enumeration:
  assumes d1: "distinct (map fst fs1)" and d2: "distinct (map fst fs2)"
    and same: "set fs1 = set fs2"
    and run1: "create_cdn_bundle pf fs1 = (fs1', out1, Inr b1)"
  shows "\<exists>fs2' out2 b2.
           create_cdn_bundle pf fs2 = (fs2', out2, Inr b2)
           \<and> set (v_cdn_files b2) = set (v_cdn_files b1)
           \<and> set (filter (\<lambda>p. \<not> is_excluded p) (rglob_js fs2))
               = set (filter (\<lambda>p. \<not> is_excluded p) (rglob_js fs1))
           \<and> set (filter is_excluded (rglob_js fs2)) = set (filter is_excluded (rglob_js fs1))
           \<and> v_excluded_count b2 = v_excluded_count b1
           \<and> v_total_size b2 = v_total_size b1
           \<and> map_of fs2' = map_of fs1'"
proof -
  note st = same_tree[OF d1 d2 same]
  have inc: "mset (included (rglob_js fs1)) = mset (included (rglob_js fs2))"
    unfolding included_def using st(2) by simp
  have exc: "mset (excluded (rglob_js fs1)) = mset (excluded (rglob_js fs2))"
    unfolding excluded_def using st(2) by simp
  from inc have incs: "set (included (rglob_js fs1)) = set (included (rglob_js fs2))"
    by (rule mset_eq_setD)
  from exc have excs: "set (excluded (rglob_js fs1)) = set (excluded (rglob_js fs2))"
    by (rule mset_eq_setD)
  from create_cdn_bundle_Inr[OF run1] obtain fsa outa cdna ka where
    ma: "mkdirs fs1 [''dist''] = Inr fsa" and
    la: "copy_loop pf (rglob_js fs1) fsa [] 0 = (fs1', outa, Inr (cdna, ka))" by blast
  have "\<forall>d\<in>set [''dist'']. \<forall>b. map_of fs2 d \<noteq> Some (File b)"
    using mkdirs_no_file[OF ma] st(1) by simp
  from mkdirs_succeeds[OF this] obtain fsb where mb: "mkdirs fs2 [''dist''] = Inr fsb" by blast
  have m0: "map_of fsa = map_of fsb"
  proof
    fix q
    show "map_of fsa q = map_of fsb q"
      unfolding mkdir_dist_map[OF ma] mkdir_dist_map[OF mb] st(1) ..
  qed
  have "loop_ok pf fsa (included (rglob_js fs1))"
    using la by (intro iffD1[OF copy_loop_succeeds_iff]) blast
  then have "loop_ok pf fsb (included (rglob_js fs2))"
    using loop_ok_cong[OF m0 incs] by simp
  with mb have "\<exists>fs' out b. create_cdn_bundle pf fs2 = (fs', out, Inr b)"
    by (intro iffD2[OF create_cdn_bundle_succeeds_iff]) blast
  then obtain fs2' out2 b2 where run2: "create_cdn_bundle pf fs2 = (fs2', out2, Inr b2)" by blast
  note r1 = create_cdn_bundle_result[OF run1]
  note r2 = create_cdn_bundle_result[OF run2]
  have a: "set (v_cdn_files b2) = set (v_cdn_files b1)"
    unfolding r1(1) r2(1) using incs by simp
  have b: "v_excluded_count b2 = v_excluded_count b1"
    unfolding r1(2) r2(2) using exc by (metis size_mset)
  have cb: "copied_bytes pf fs1 p = copied_bytes pf fs2 p" for p
    by (rule copied_bytes_cong) (simp add: st(1))
  have "sum_list (map (\<lambda>p. length (copied_bytes pf fs1 p)) (included (rglob_js fs1)))
          = sum_mset (image_mset (\<lambda>p. length (copied_bytes pf fs1 p)) (mset (included (rglob_js fs1))))"
    by (metis mset_map sum_mset_sum_list)
  also have "\<dots> = sum_mset (image_mset (\<lambda>p. length (copied_bytes pf fs2 p)) (mset (included (rglob_js fs2))))"
    unfolding inc cb ..
  also have "\<dots> = sum_list (map (\<lambda>p. length (copied_bytes pf fs2 p)) (included (rglob_js fs2)))"
    by (metis mset_map sum_mset_sum_list)
  finally have c: "v_total_size b2 = v_total_size b1"
    unfolding r1(4) r2(4) by simp
  from create_cdn_bundle_Inr[OF run2] mb obtain outb cdnb kb where
    lb: "copy_loop pf (rglob_js fs2) fsb [] 0 = (fs2', outb, Inr (cdnb, kb))" by auto
  have d: "map_of fs2' = map_of fs1'"
  proof
    fix q
    show "map_of fs2' q = map_of fs1' q"
      unfolding final_tree[OF la] final_tree[OF lb] incs m0
      using copied_bytes_cong[of fsa _ fsb pf] m0 by auto
  qed
  have e: "set (filter (\<lambda>p. \<not> is_excluded p) (rglob_js fs2))
               = set (filter (\<lambda>p. \<not> is_excluded p) (rglob_js fs1))"
    using incs by (simp add: included_def)
  have f: "set (filter is_excluded (rglob_js fs2)) = set (filter is_excluded (rglob_js fs1))"
    using excs by (simp add: excluded_def)
  from run2 a b c d e f show ?thesis by blast
qed

lemma excluded_paths_excluded: "\<forall>p\<in>set EXCLUDED_FROM_CDN. is_excluded p"
  by (simp add: EXCLUDED_FROM_CDN_def is_excluded_def)

text \<open>
  C10. Every path of \<open>EXCLUDED_FROM_CDN\<close> is in \<open>required_files\<close>. So when the
  inventory passes the excluded files exist; each of them meets the exclusion test, and
  when the bundle step returns none of their destinations is among the copied files.
\<close>

theorem excluded_files_are_required:
  "set EXCLUDED_FROM_CDN \<subseteq> set required_files
   \<and> (snd (validate_source_files fs) \<longrightarrow> (\<forall>p\<in>set EXCLUDED_FROM_CDN. path_exists fs p))
   \<and> (\<forall>p\<in>set EXCLUDED_FROM_CDN. is_excluded p)
   \<and> (create_cdn_bundle pf fs = (fs', out, Inr b) \<longrightarrow>
        (\<forall>p\<in>set EXCLUDED_FROM_CDN. dist_of p \<notin> set (v_cdn_files b)))"
proof -
  have a: "set EXCLUDED_FROM_CDN \<subseteq> set required_files"
    by (simp add: EXCLUDED_FROM_CDN_def required_files_def)
  have b: "snd (validate_source_files fs) \<longrightarrow> (\<forall>p\<in>set EXCLUDED_FROM_CDN. path_exists fs p)"
  proof
    assume "snd (validate_source_files fs)"
    then have "filter (\<lambda>p. \<not> path_exists fs p) required_files = []"
      by (simp add: validate_source_files_def validate_files_def collect_missing_filter Let_def
            split: if_splits)
    then have "\<forall>p\<in>set required_files. path_exists fs p"
      by (simp add: filter_empty_conv)
    with a show "\<forall>p\<in>set EXCLUDED_FROM_CDN. path_exists fs p" by blast
  qed
  have c: "create_cdn_bundle pf fs = (fs', out, Inr b) \<longrightarrow>
        (\<forall>p\<in>set EXCLUDED_FROM_CDN. dist_of p \<notin> set (v_cdn_files b))"
  proof (intro impI ballI notI)
    fix p
    assume run: "create_cdn_bundle pf fs = (fs', out, Inr b)"
      and p: "p \<in> set EXCLUDED_FROM_CDN" and "dist_of p \<in> set (v_cdn_files b)"
    then obtain q where q: "q \<in> set (included (rglob_js fs))" and e: "dist_of p = dist_of q"
      unfolding create_cdn_bundle_result(1)[OF run] by auto
    from q have qs: "prefix ''src/'' q" and nq: "\<not> is_excluded q"
      using rglob_js_src[of q fs] by (simp_all add: included_def)
    from p have ps: "prefix ''src/'' p" by (auto simp: EXCLUDED_FROM_CDN_def)
    from dist_of_inj[OF ps qs e] nq excluded_paths_excluded p show False by blast
  qed
  from a b c excluded_paths_excluded show ?thesis by blast
qed

lemma rglob_sample: "rglob_js sample_tree = [''src/index.js'', ''src/plugins/vue.js'', ''src/core/Router.js'']"
  by (simp add: rglob_js_def sample_tree_def parents_def suffix_to_prefix)

lemma excl_sample:
  "\<not> is_excluded ''src/index.js''" "is_excluded ''src/plugins/vue.js''" "\<not> is_excluded ''src/core/Router.js''"
  by (simp_all add: is_excluded_def EXCLUDED_FROM_CDN_def)

lemma readme_run:
  "create_cdn_bundle byte_platform readme_tree =
     (readme_tree @ [(''dist'', Dir)],
      log_header [S ''Step 8: Creating CDN Bundle'']
      @ log_success [S ''CDN bundle created: '', N 0, S '' files'']
      @ log [S ''Excluded '', N 0, S '' plugin files''] [OKBLUE]
      @ log [S ''Total bundle size: '', NSep 0, S '' bytes ('', KB 0, S '' KB)''] [OKBLUE],
      Inr \<lparr>v_cdn_files = [], v_excluded_count = 0, v_total_size = 0, v_return = True\<rparr>)"
  by (simp add: create_cdn_bundle_def readme_tree_def rglob_js_def parents_def Let_def suffix_to_prefix)

lemma sample_run:
  "create_cdn_bundle byte_platform sample_tree =
     (sample_tree @ [(''dist'', Dir), (''dist/index.js'', File ''abc''), (''dist/core'', Dir),
                     (''dist/core/Router.js'', File ''zz'')],
      log_header [S ''Step 8: Creating CDN Bundle'']
      @ log_warning [S ''Excluded: '', S ''src/plugins/vue.js'', S '' (plugin template)'']
      @ log_success [S ''CDN bundle created: '', N 2, S '' files'']
      @ log [S ''Excluded '', N 1, S '' plugin files''] [OKBLUE]
      @ log [S ''Total bundle size: '', NSep 5, S '' bytes ('', KB 5, S '' KB)''] [OKBLUE],
      Inr \<lparr>v_cdn_files = [''dist/index.js'', ''dist/core/Router.js''], v_excluded_count = 1,
             v_total_size = 5, v_return = True\<rparr>)"
  by (simp add: create_cdn_bundle_def sample_tree_def rglob_js_def parents_def Let_def
        suffix_to_prefix is_excluded_def EXCLUDED_FROM_CDN_def copy_to_dist_def
        relative_to_src_def read_text_def write_text_def getsize_def byte_platform_def
        log_success_def log_def)

text \<open>
  The claim C2 as stated counts every file of the tree. In a tree whose only file is
  \<open>src/readme.md\<close> one file exists and none is excluded, yet nothing is included and
  nothing is copied.
\<close>

theorem bundle_skips_other_files_counterexample:
  "snd (snd (create_cdn_bundle byte_platform readme_tree))
     = Inr \<lparr>v_cdn_files = [], v_excluded_count = 0, v_total_size = 0, v_return = True\<rparr>
   \<and> map_of readme_tree ''src/readme.md'' = Some (File ''x'')
   \<and> \<not> is_excluded ''src/readme.md''
   \<and> map_of (fst (create_cdn_bundle byte_platform readme_tree)) ''dist/readme.md'' = None"
  by (simp add: readme_run) (simp add: readme_tree_def is_excluded_def EXCLUDED_FROM_CDN_def)

theorem bundle_counts_witness:
  "snd (snd (create_cdn_bundle byte_platform sample_tree))
     = Inr \<lparr>v_cdn_files = [''dist/index.js'', ''dist/core/Router.js''], v_excluded_count = 1,
            v_total_size = 5, v_return = True\<rparr>
   \<and> length (rglob_js sample_tree) = 3
   \<and> length (filter is_excluded (rglob_js sample_tree)) = 1
   \<and> map_of (fst (create_cdn_bundle byte_platform sample_tree)) (dist_of ''src/core/Router.js'')
       = Some (File (copied_bytes byte_platform sample_tree ''src/core/Router.js''))
   \<and> copied_bytes byte_platform sample_tree ''src/core/Router.js'' = ''zz''"
proof -
  have "copied_bytes byte_platform sample_tree ''src/core/Router.js'' = ''zz''"
    by (simp add: copied_bytes_def sample_tree_def byte_platform_def)
  with bundle_counts_and_copies[OF sample_run] show ?thesis
    by (simp add: sample_run rglob_sample excl_sample dist_of_def)
qed

lemma universal_newlines_id: "CHR 0x0D \<notin> set xs \<Longrightarrow> universal_newlines xs = xs"
  by (induction xs rule: universal_newlines.induct) auto

lemma big_bytes_facts: "universal_newlines big_bytes = big_bytes" "length big_bytes = 102401"
  by (simp_all add: big_bytes_def universal_newlines_id)

lemma big_run:
  "create_cdn_bundle byte_platform big_tree =
     (big_tree @ [(''dist'', Dir), (''dist/index.js'', File big_bytes)],
      log_header [S ''Step 8: Creating CDN Bundle'']
      @ log_success [S ''CDN bundle created: '', N 1, S '' files'']
      @ log [S ''Excluded '', N 0, S '' plugin files''] [OKBLUE]
      @ log [S ''Total bundle size: '', NSep 102401, S '' bytes ('', KB 102401, S '' KB)''] [OKBLUE]
      @ log_warning [S ''Bundle exceeds 100KB target''],
      Inr \<lparr>v_cdn_files = [''dist/index.js''], v_excluded_count = 0,
             v_total_size = 102401, v_return = True\<rparr>)"
  by (simp add: create_cdn_bundle_def big_tree_def rglob_js_def parents_def Let_def
        suffix_to_prefix is_excluded_def EXCLUDED_FROM_CDN_def copy_to_dist_def
        relative_to_src_def read_text_def write_text_def getsize_def byte_platform_def
        log_success_def log_def big_bytes_facts)

theorem bundle_total_witness:
  "snd (snd (create_cdn_bundle byte_platform big_tree))
     = Inr \<lparr>v_cdn_files = [''dist/index.js''], v_excluded_count = 0,
            v_total_size = 102401, v_return = True\<rparr>
   \<and> ([WARNING], [U 0x26A0, U 0xFE0F, S ''  '', S ''Bundle exceeds 100KB target''])
       \<in> set (fst (snd (create_cdn_bundle byte_platform big_tree)))
   \<and> file_size (fst (create_cdn_bundle byte_platform big_tree)) ''dist/index.js'' = 102401
   \<and> 102401 > (100 * 1024 :: nat)"
  using bundle_total_and_budget[OF big_run]
  by (simp add: big_run)

text \<open>
  The claim C6 as stated takes the total to be the sum of the sizes of the included
  source files. The only source of this tree has four bytes, \<open>a\<close>, carriage return,
  line feed, \<open>b\<close>; read with universal newlines and written again, its copy has
  three, and the total is 3.
\<close>

theorem bundle_total_not_source_sizes_counterexample:
  "snd (snd (create_cdn_bundle byte_platform crlf_tree))
     = Inr \<lparr>v_cdn_files = [''dist/a.js''], v_excluded_count = 0, v_total_size = 3,
            v_return = True\<rparr>
   \<and> rglob_js crlf_tree = [''src/a.js'']
   \<and> \<not> is_excluded ''src/a.js''
   \<and> file_size crlf_tree ''src/a.js'' = 4
   \<and> map_of (fst (create_cdn_bundle byte_platform crlf_tree)) ''dist/a.js''
       = Some (File [CHR ''a'', CHR 0x0A, CHR ''b''])"
  by (simp add: create_cdn_bundle_def crlf_tree_def rglob_js_def parents_def Let_def
        suffix_to_prefix is_excluded_def EXCLUDED_FROM_CDN_def copy_to_dist_def
        relative_to_src_def read_text_def write_text_def getsize_def byte_platform_def
        file_size_def)

lemma sample_trees_same:
  "distinct (map fst sample_tree)" "distinct (map fst sample_tree_reordered)"
  "set sample_tree = set sample_tree_reordered"
  by (auto simp: sample_tree_def sample_tree_reordered_def)

theorem bundle_enumeration_witness:
  "distinct (map fst sample_tree) \<and> distinct (map fst sample_tree_reordered)
   \<and> set sample_tree = set sample_tree_reordered
   \<and> sample_tree \<noteq> sample_tree_reordered
   \<and> snd (snd (create_cdn_bundle byte_platform sample_tree))
       = Inr \<lparr>v_cdn_files = [''dist/index.js'', ''dist/core/Router.js''], v_excluded_count = 1,
              v_total_size = 5, v_return = True\<rparr>
   \<and> (\<exists>fs2' out2 b2.
         create_cdn_bundle byte_platform sample_tree_reordered = (fs2', out2, Inr b2)
         \<and> set (v_cdn_files b2) = {''dist/index.js'', ''dist/core/Router.js''}
         \<and> v_excluded_count b2 = 1 \<and> v_total_size b2 = 5)"
proof -
  have ne: "sample_tree \<noteq> sample_tree_reordered"
    by (simp add: sample_tree_def sample_tree_reordered_def)
  from bundle_independent_of_enumeration[OF sample_trees_same sample_run]
  obtain fs2' out2 b2 where
    "create_cdn_bundle byte_platform sample_tree_reordered = (fs2', out2, Inr b2)"
    "set (v_cdn_files b2) = {''dist/index.js'', ''dist/core/Router.js''}"
    "v_excluded_count b2 = 1" "v_total_size b2 = 5"
    by auto
  then have "\<exists>fs2' out2 b2.
         create_cdn_bundle byte_platform sample_tree_reordered = (fs2', out2, Inr b2)
         \<and> set (v_cdn_files b2) = {''dist/index.js'', ''dist/core/Router.js''}
         \<and> v_excluded_count b2 = 1 \<and> v_total_size b2 = 5"
    by blast
  with sample_trees_same ne show ?thesis by (simp add: sample_run)
qed

lemma full_validate: "validate_source_files full_tree
    = (log_header [S ''Step 2: Validating Source Files'']
       @ log_success [S ''All '', N 18, S '' source files present''], True)"
  by (simp add: validate_source_files_def validate_files_def full_tree_def required_files_def
        path_exists_def Let_def log_success_def log_def)

lemma rglob_full: "rglob_js full_tree = required_files"
  by (simp add: rglob_js_def full_tree_def required_files_def parents_def suffix_to_prefix)

lemma included_full:
  "included required_files =
     [''src/index.js'', ''src/core/FrontendRAFT.js'', ''src/core/CacheLayer.js'',
      ''src/core/StreamManager.js'', ''src/core/BatchManager.js'',
      ''src/core/OptimisticEngine.js'', ''src/core/QueryEngine.js'',
      ''src/core/AuthLayer.js'', ''src/core/Router.js'', ''src/core/StorageLayer.js'',
      ''src/core/ComputeLayer.js'', ''src/core/P2PLayer.js'', ''src/core/CDNClient.js'',
      ''src/utils/jwt.js'', ''src/utils/crypto.js'', ''src/utils/validation.js'']"
  by (simp add: included_def required_files_def is_excluded_def EXCLUDED_FROM_CDN_def)

lemma full_mkdir: "mkdirs full_tree [''dist''] = Inr (full_tree @ [(''dist'', Dir)])"
  by (simp add: full_tree_def required_files_def)

lemma full_can_copy:
  "\<forall>p\<in>set (included required_files). can_copy byte_platform (full_tree @ [(''dist'', Dir)]) p"
  unfolding included_full
  by (simp add: can_copy_def dist_of_def parents_def is_file_def byte_platform_def full_tree_def
        required_files_def)

lemma full_no_clash:
  "\<forall>p\<in>set (included required_files). \<forall>q\<in>set (included required_files).
     dist_of q \<notin> set (parents (dist_of p))"
  unfolding included_full
  by (simp add: dist_of_def parents_def)

theorem excluded_files_witness:
  "snd (validate_source_files full_tree)
   \<and> path_exists full_tree ''src/plugins/react.js''
   \<and> path_exists full_tree ''src/plugins/vue.js''
   \<and> (\<exists>fs' out b. create_cdn_bundle byte_platform full_tree = (fs', out, Inr b)
          \<and> length (v_cdn_files b) = 16
          \<and> ''dist/plugins/react.js'' \<notin> set (v_cdn_files b)
          \<and> ''dist/plugins/vue.js'' \<notin> set (v_cdn_files b))"
proof -
  have ok: "loop_ok byte_platform (full_tree @ [(''dist'', Dir)]) (included (rglob_js full_tree))"
    unfolding loop_ok_def rglob_full using full_can_copy full_no_clash by blast
  with full_mkdir have "\<exists>fs' out b. create_cdn_bundle byte_platform full_tree = (fs', out, Inr b)"
    by (intro iffD2[OF create_cdn_bundle_succeeds_iff]) blast
  then obtain fs' out b where run: "create_cdn_bundle byte_platform full_tree = (fs', out, Inr b)"
    by blast
  have len: "length (v_cdn_files b) = 16"
    unfolding create_cdn_bundle_result(1)[OF run] rglob_full included_full by simp
  have v: "snd (validate_source_files full_tree)" by (simp add: full_validate)
  from excluded_files_are_required[of full_tree byte_platform fs' out b] v run
  have "\<forall>p\<in>set EXCLUDED_FROM_CDN. path_exists full_tree p"
    and "\<forall>p\<in>set EXCLUDED_FROM_CDN. dist_of p \<notin> set (v_cdn_files b)"
    by blast+
  then have "path_exists full_tree ''src/plugins/react.js''"
    and "path_exists full_tree ''src/plugins/vue.js''"
    and "''dist/plugins/react.js'' \<notin> set (v_cdn_files b)"
    and "''dist/plugins/vue.js'' \<notin> set (v_cdn_files b)"
    by (simp_all add: EXCLUDED_FROM_CDN_def dist_of_def)
  with v run len show ?thesis by blast
qed

end
